theory Spec2Isabelle
  imports Complex_Main "HOL-Library.Multiset"
begin

section \<open>Errors and checked arithmetic\<close>

text \<open>
  The metrics of \<^verbatim>\<open>metrics.py\<close> are pure functions. The only ways they can fail on
  well-typed arguments are a division by zero and \<^verbatim>\<open>max\<close> of an empty list. Both are
  results of the model: a computation returns \<open>Inl e\<close> where Python raises \<open>e\<close>, and
  \<open>Inr v\<close> where it returns \<open>v\<close>. Counts and scores are real numbers; the intersection
  over union is given twice, in exact arithmetic and in IEEE double precision.
\<close>

datatype error = ZeroDivisionError | ValueError

definition py_div :: "real \<Rightarrow> real \<Rightarrow> error + real" where
  "py_div a b = (if b = 0 then Inl ZeroDivisionError else Inr (a / b))"

definition ebind :: "error + 'a \<Rightarrow> ('a \<Rightarrow> error + 'b) \<Rightarrow> error + 'b" where
  "ebind m k = (case m of Inl e \<Rightarrow> Inl e | Inr v \<Rightarrow> k v)"

section \<open>Intersection over union\<close>

type_synonym bbox = "real \<times> real \<times> real \<times> real"

text \<open>A box is \<open>(ymin, xmin, ymax, xmax)\<close>; the code reads it by index 0 to 3.\<close>

definition b0 :: "bbox \<Rightarrow> real" where "b0 b = fst b"
definition b1 :: "bbox \<Rightarrow> real" where "b1 b = fst (snd b)"
definition b2 :: "bbox \<Rightarrow> real" where "b2 b = fst (snd (snd b))"
definition b3 :: "bbox \<Rightarrow> real" where "b3 b = snd (snd (snd b))"

text \<open>
  The body of \<^verbatim>\<open>iou\<close> (lines 170 to 179) is written once and runs on whatever numbers
  the boxes hold. The first model reads it in exact arithmetic: this is the function on the
  boxes of real numbers of the specification, and what the code computes on coordinates
  whose arithmetic is exact, such as \<^verbatim>\<open>fractions.Fraction\<close> (on Python integers the
  areas are exact and only the final quotient is rounded). On boxes of Python floats
  every operation rounds; that computation is \<open>iou_double\<close> of the next section. The two
  agree whenever no operation rounds (lemma \<open>iou_double_exact\<close>), as on the boxes of the
  example for the SQA-UIC-BB metrics (lemmas \<open>iou_example\<close> and \<open>iou_double_example\<close>).
\<close>

definition iou :: "bbox \<Rightarrow> bbox \<Rightarrow> error + real" where
  "iou bbox1 bbox2 =
     (let ymin = max (b0 bbox1) (b0 bbox2);
          xmin = max (b1 bbox1) (b1 bbox2);
          ymax = min (b2 bbox1) (b2 bbox2);
          xmax = min (b3 bbox1) (b3 bbox2);
          intersection_area = max 0 (xmax - xmin) * max 0 (ymax - ymin)
      in if intersection_area = 0 then Inr 0
         else
           let bbox1_area = (b3 bbox1 - b1 bbox1) * (b2 bbox1 - b0 bbox1);
               bbox2_area = (b3 bbox2 - b1 bbox2) * (b2 bbox2 - b0 bbox2)
           in py_div intersection_area (bbox1_area + bbox2_area - intersection_area))"

text \<open>The invariant the callers are asked to keep; the code does not check it.\<close>

definition valid_bbox :: "bbox \<Rightarrow> bool" where
  "valid_bbox b = (b0 b \<le> b2 b \<and> b1 b \<le> b3 b)"

definition bbox_area :: "bbox \<Rightarrow> real" where
  "bbox_area b = (b3 b - b1 b) * (b2 b - b0 b)"

section \<open>Intersection over union in double precision\<close>

text \<open>
  A Python float is an IEEE 754 binary64 number: a finite double, an infinity or nan. Every
  arithmetic operation returns the exact result rounded to the nearest double, ties to the
  even significand; a result that rounds to \<open>2 ^ 1024\<close> or beyond is an infinity; the
  invalid operations (\<open>inf - inf\<close>, \<open>0 * inf\<close>, \<open>inf / inf\<close>) return nan, and nan is
  propagated. The sign of a zero is not recorded: a program could only observe it by
  dividing by the zero, and Python raises \<^verbatim>\<open>ZeroDivisionError\<close> for a zero divisor of
  either sign.
\<close>

datatype double = Fin real | PInf | NInf | NaN

definition pow2 :: "int \<Rightarrow> real" where
  "pow2 k = 2 powr of_int k"

text \<open>The nearest integer, a tie going to the even one.\<close>

definition rne :: "real \<Rightarrow> int" where
  "rne q =
     (let f = \<lfloor>q\<rfloor>
      in if q - of_int f < 1 / 2 then f
         else if 1 / 2 < q - of_int f then f + 1
         else if even f then f else f + 1)"

text \<open>
  The doubles around a positive \<open>x\<close> are the multiples of \<open>2 ^ e\<close>, where \<open>e\<close> is 52 below
  the exponent of the binade of \<open>x\<close> (a significand has 53 bits) and never below \<open>- 1074\<close>
  (the subnormal numbers). Rounding picks the nearest multiple; the exponent is not bounded
  above here, the overflow is decided on the rounded value.
\<close>

definition ulp_exponent :: "real \<Rightarrow> int" where
  "ulp_exponent x = max (\<lfloor>log 2 x\<rfloor> - 52) (- 1074)"

definition round_pos :: "real \<Rightarrow> real" where
  "round_pos x = of_int (rne (x / pow2 (ulp_exponent x))) * pow2 (ulp_exponent x)"

definition round_nearest :: "real \<Rightarrow> real" where
  "round_nearest x = (if x = 0 then 0 else if 0 < x then round_pos x else - round_pos (- x))"

definition to_double :: "real \<Rightarrow> double" where
  "to_double x =
     (let r = round_nearest x
      in if 2 ^ 1024 \<le> r then PInf else if r \<le> - (2 ^ 1024) then NInf else Fin r)"

text \<open>
  The real numbers that are doubles: those that rounding leaves unchanged, below the
  overflow threshold. A positive one is \<open>n * 2 ^ k\<close> with a significand \<open>n\<close> below \<open>2 ^ 53\<close>
  and an exponent \<open>k\<close> of at least \<open>- 1074\<close>.
\<close>

definition fp_form :: "real \<Rightarrow> bool" where
  "fp_form y = (\<exists>n k. y = of_int n * pow2 k \<and> 0 < n \<and> n < 2 ^ 53 \<and> - 1074 \<le> k)"

definition representable :: "real \<Rightarrow> bool" where
  "representable x = (round_nearest x = x)"

definition is_double :: "real \<Rightarrow> bool" where
  "is_double x = (representable x \<and> \<bar>x\<bar> < 2 ^ 1024)"

text \<open>Negation, addition, subtraction, multiplication.\<close>

fun dneg :: "double \<Rightarrow> double" where
  "dneg (Fin x) = Fin (- x)"
| "dneg PInf = NInf"
| "dneg NInf = PInf"
| "dneg NaN = NaN"

fun dadd :: "double \<Rightarrow> double \<Rightarrow> double" where
  "dadd (Fin x) (Fin y) = to_double (x + y)"
| "dadd NaN b = NaN"
| "dadd a NaN = NaN"
| "dadd PInf NInf = NaN"
| "dadd NInf PInf = NaN"
| "dadd PInf b = PInf"
| "dadd a PInf = PInf"
| "dadd NInf b = NInf"
| "dadd a NInf = NInf"

definition dsub :: "double \<Rightarrow> double \<Rightarrow> double" where
  "dsub a b = dadd a (dneg b)"

definition inf_of_sign :: "real \<Rightarrow> double" where
  "inf_of_sign x = (if x = 0 then NaN else if 0 < x then PInf else NInf)"

fun dmul :: "double \<Rightarrow> double \<Rightarrow> double" where
  "dmul (Fin x) (Fin y) = to_double (x * y)"
| "dmul NaN b = NaN"
| "dmul a NaN = NaN"
| "dmul (Fin x) PInf = inf_of_sign x"
| "dmul (Fin x) NInf = inf_of_sign (- x)"
| "dmul PInf (Fin y) = inf_of_sign y"
| "dmul NInf (Fin y) = inf_of_sign (- y)"
| "dmul PInf PInf = PInf"
| "dmul NInf NInf = PInf"
| "dmul PInf NInf = NInf"
| "dmul NInf PInf = NInf"

text \<open>
  The division of Python floats raises \<^verbatim>\<open>ZeroDivisionError\<close> when the divisor is a zero,
  whatever the dividend; otherwise it is the IEEE division.
\<close>

definition ddiv :: "double \<Rightarrow> double \<Rightarrow> error + double" where
  "ddiv a b =
     (case b of
        Fin y \<Rightarrow>
          if y = 0 then Inl ZeroDivisionError
          else Inr (case a of
                      Fin x \<Rightarrow> to_double (x / y)
                    | PInf \<Rightarrow> inf_of_sign y
                    | NInf \<Rightarrow> inf_of_sign (- y)
                    | NaN \<Rightarrow> NaN)
      | NaN \<Rightarrow> Inr NaN
      | PInf \<Rightarrow> Inr (case a of Fin x \<Rightarrow> Fin 0 | PInf \<Rightarrow> NaN | NInf \<Rightarrow> NaN | NaN \<Rightarrow> NaN)
      | NInf \<Rightarrow> Inr (case a of Fin x \<Rightarrow> Fin 0 | PInf \<Rightarrow> NaN | NInf \<Rightarrow> NaN | NaN \<Rightarrow> NaN))"

text \<open>
  The comparisons \<^verbatim>\<open><\<close>, \<^verbatim>\<open>==\<close> and \<^verbatim>\<open>>=\<close>: each is false as soon as one side is nan, so
  nan is not equal to itself.
\<close>

fun dless :: "double \<Rightarrow> double \<Rightarrow> bool" where
  "dless (Fin x) (Fin y) = (x < y)"
| "dless NaN b = False"
| "dless a NaN = False"
| "dless a NInf = False"
| "dless PInf b = False"
| "dless NInf b = True"
| "dless a PInf = True"

definition deq :: "double \<Rightarrow> double \<Rightarrow> bool" where
  "deq a b = (a \<noteq> NaN \<and> b \<noteq> NaN \<and> a = b)"

definition dge :: "double \<Rightarrow> double \<Rightarrow> bool" where
  "dge a b = (dless b a \<or> deq a b)"

text \<open>
  \<^verbatim>\<open>max(a, b)\<close> keeps its first argument unless the second is greater, \<^verbatim>\<open>min(a, b)\<close>
  unless the second is less.
\<close>

definition dmax :: "double \<Rightarrow> double \<Rightarrow> double" where
  "dmax a b = (if dless a b then b else a)"

definition dmin :: "double \<Rightarrow> double \<Rightarrow> double" where
  "dmin a b = (if dless b a then b else a)"

type_synonym dbox = "double \<times> double \<times> double \<times> double"

definition d0 :: "dbox \<Rightarrow> double" where "d0 b = fst b"
definition d1 :: "dbox \<Rightarrow> double" where "d1 b = fst (snd b)"
definition d2 :: "dbox \<Rightarrow> double" where "d2 b = fst (snd (snd b))"
definition d3 :: "dbox \<Rightarrow> double" where "d3 b = snd (snd (snd b))"

text \<open>The area of a box as lines 177 and 178 compute it.\<close>

definition double_area :: "dbox \<Rightarrow> double" where
  "double_area b = dmul (dsub (d3 b) (d1 b)) (dsub (d2 b) (d0 b))"

text \<open>
  Lines 170 to 179 on float boxes. The literal \<^verbatim>\<open>0\<close> of \<^verbatim>\<open>max(0, ...)\<close> is the integer
  zero, which the multiplication converts to the double zero; \<^verbatim>\<open>intersection_area == 0\<close>
  is false of nan.
\<close>

definition iou_double :: "dbox \<Rightarrow> dbox \<Rightarrow> error + double" where
  "iou_double bbox1 bbox2 =
     (let ymin = dmax (d0 bbox1) (d0 bbox2);
          xmin = dmax (d1 bbox1) (d1 bbox2);
          ymax = dmin (d2 bbox1) (d2 bbox2);
          xmax = dmin (d3 bbox1) (d3 bbox2);
          intersection_area = dmul (dmax (Fin 0) (dsub xmax xmin)) (dmax (Fin 0) (dsub ymax ymin))
      in if intersection_area = Fin 0 then Inr (Fin 0)
         else
           let bbox1_area = dmul (dsub (d3 bbox1) (d1 bbox1)) (dsub (d2 bbox1) (d0 bbox1));
               bbox2_area = dmul (dsub (d3 bbox2) (d1 bbox2)) (dsub (d2 bbox2) (d0 bbox2))
           in ddiv intersection_area (dsub (dadd bbox1_area bbox2_area) intersection_area))"

text \<open>
  A box of finite coordinates read as a box of doubles, and the boxes all of whose
  coordinates are doubles.
\<close>

definition float_box :: "bbox \<Rightarrow> dbox" where
  "float_box b = (Fin (b0 b), Fin (b1 b), Fin (b2 b), Fin (b3 b))"

definition double_box :: "bbox \<Rightarrow> bool" where
  "double_box b = (is_double (b0 b) \<and> is_double (b1 b) \<and> is_double (b2 b) \<and> is_double (b3 b))"

text \<open>
  What the specification says of a result, read on the results of the code: the result is a
  number from 0 to 1; two results are equal for \<^verbatim>\<open>==\<close>.
\<close>

definition in_unit_interval :: "double \<Rightarrow> bool" where
  "in_unit_interval d =
     (case d of Fin r \<Rightarrow> 0 \<le> r \<and> r \<le> 1 | PInf \<Rightarrow> False | NInf \<Rightarrow> False | NaN \<Rightarrow> False)"

definition result_in_unit :: "error + double \<Rightarrow> bool" where
  "result_in_unit r = (case r of Inl e \<Rightarrow> False | Inr d \<Rightarrow> in_unit_interval d)"

definition results_equal :: "error + double \<Rightarrow> error + double \<Rightarrow> bool" where
  "results_equal r1 r2 =
     (case r1 of Inl e \<Rightarrow> False
      | Inr x \<Rightarrow> (case r2 of Inl e \<Rightarrow> False | Inr y \<Rightarrow> deq x y))"

section \<open>Token F1\<close>

text \<open>
  \<^verbatim>\<open>collections.Counter(xs)\<close> maps each distinct element of \<open>xs\<close> to its number of
  occurrences; it is modelled as an association list with one entry per distinct element.
  \<^verbatim>\<open>c1 & c2\<close> walks the entries of \<open>c1\<close>, takes the minimum of the two counts (a missing
  key counts 0) and keeps the entries whose minimum is positive.
\<close>

definition counter :: "'a list \<Rightarrow> ('a \<times> nat) list" where
  "counter xs = map (\<lambda>x. (x, count_list xs x)) (remdups xs)"

definition counter_get :: "('a \<times> nat) list \<Rightarrow> 'a \<Rightarrow> nat" where
  "counter_get c k = (case map_of c k of None \<Rightarrow> 0 | Some v \<Rightarrow> v)"

definition counter_and :: "('a \<times> nat) list \<Rightarrow> ('a \<times> nat) list \<Rightarrow> ('a \<times> nat) list" where
  "counter_and c1 c2 =
     filter (\<lambda>kv. 0 < snd kv) (map (\<lambda>kv. (fst kv, min (snd kv) (counter_get c2 (fst kv)))) c1)"

definition num_same :: "'a list \<Rightarrow> 'a list \<Rightarrow> nat" where
  "num_same prediction_tokens ground_truth_tokens =
     sum_list (map snd (counter_and (counter prediction_tokens) (counter ground_truth_tokens)))"

definition f1_score :: "'a list \<Rightarrow> 'a list \<Rightarrow> error + real" where
  "f1_score prediction_tokens ground_truth_tokens =
     (let n = num_same prediction_tokens ground_truth_tokens
      in if n = 0 then Inr 0
         else
           ebind (py_div (1 * real n) (real (length prediction_tokens))) (\<lambda>precision.
           ebind (py_div (1 * real n) (real (length ground_truth_tokens))) (\<lambda>recall.
           py_div (2 * precision * recall) (precision + recall))))"

section \<open>Text normalisation\<close>

text \<open>
  A Python string is a sequence of code points. The model takes the code points below 256,
  which are the values of \<^typ>\<open>char\<close>, and classifies them as Python 3 does:
  \<^verbatim>\<open>str.lower\<close> maps A--Z and the upper-case letters of 0xC0--0xDE (0xD7, the
  multiplication sign, is no letter) to the character 32 places up;
  \<^verbatim>\<open>string.punctuation\<close> is the 32 characters 0x21--0x2F, 0x3A--0x40, 0x5B--0x60 and
  0x7B--0x7E; \<^verbatim>\<open>str.split()\<close> separates at the characters for which
  \<^verbatim>\<open>str.isspace\<close> holds; the class \<^verbatim>\<open>\w\<close> of \<^verbatim>\<open>re\<close> on a \<^verbatim>\<open>str\<close> pattern is the
  alphanumeric characters and the underscore.
\<close>

definition ord :: "char \<Rightarrow> nat" where
  "ord c = of_char c"

definition lower_char :: "char \<Rightarrow> char" where
  "lower_char c =
     (if (65 \<le> ord c \<and> ord c \<le> 90) \<or> (192 \<le> ord c \<and> ord c \<le> 222 \<and> ord c \<noteq> 215)
      then char_of (ord c + 32) else c)"

definition lower :: "string \<Rightarrow> string" where
  "lower s = map lower_char s"

definition in_punctuation :: "char \<Rightarrow> bool" where
  "in_punctuation c =
     ((33 \<le> ord c \<and> ord c \<le> 47) \<or> (58 \<le> ord c \<and> ord c \<le> 64) \<or>
      (91 \<le> ord c \<and> ord c \<le> 96) \<or> (123 \<le> ord c \<and> ord c \<le> 126))"

definition isspace :: "char \<Rightarrow> bool" where
  "isspace c =
     ((9 \<le> ord c \<and> ord c \<le> 13) \<or> (28 \<le> ord c \<and> ord c \<le> 32) \<or> ord c = 133 \<or> ord c = 160)"

definition is_word_char :: "char \<Rightarrow> bool" where
  "is_word_char c =
     ((48 \<le> ord c \<and> ord c \<le> 57) \<or> (65 \<le> ord c \<and> ord c \<le> 90) \<or> ord c = 95 \<or>
      (97 \<le> ord c \<and> ord c \<le> 122) \<or> ord c = 170 \<or> ord c = 178 \<or> ord c = 179 \<or>
      ord c = 181 \<or> ord c = 185 \<or> ord c = 186 \<or> (188 \<le> ord c \<and> ord c \<le> 190) \<or>
      (192 \<le> ord c \<and> ord c \<le> 214) \<or> (216 \<le> ord c \<and> ord c \<le> 246) \<or> 248 \<le> ord c)"

text \<open>
  \<^verbatim>\<open>s.split()\<close>: the maximal runs of characters that are not white space, in order.
  \<open>split_from cur s\<close> scans \<open>s\<close> with the word read so far in \<open>cur\<close>.
\<close>

fun split_from :: "string \<Rightarrow> string \<Rightarrow> string list" where
  "split_from cur [] = (if cur = [] then [] else [cur])"
| "split_from cur (c # cs) =
     (if isspace c then (if cur = [] then split_from [] cs else cur # split_from [] cs)
      else split_from (cur @ [c]) cs)"

definition split :: "string \<Rightarrow> string list" where
  "split s = split_from [] s"

fun join :: "string \<Rightarrow> string list \<Rightarrow> string" where
  "join sep [] = []"
| "join sep [w] = w"
| "join sep (w # v # ws) = w @ sep @ join sep (v # ws)"

text \<open>
  \<^verbatim>\<open>\b\<close> holds between two positions when exactly one of the characters on its two sides
  is a word character; beyond either end of the string there is none. \<open>prev\<close> tells
  whether the character before the position is a word character.
\<close>

fun word_boundary :: "bool \<Rightarrow> string \<Rightarrow> bool" where
  "word_boundary prev [] = prev"
| "word_boundary prev (c # cs) = (prev \<noteq> is_word_char c)"

text \<open>
  One attempt of \<^verbatim>\<open>\b(a|an|the)\b\<close> at a position: the length of the match, if any. The
  alternatives are tried in their order, each followed by the closing \<^verbatim>\<open>\b\<close>.
\<close>

definition match_article :: "bool \<Rightarrow> string \<Rightarrow> nat option" where
  "match_article prev s =
     (if \<not> word_boundary prev s then None
      else if take 1 s = ''a'' \<and> word_boundary True (drop 1 s) then Some 1
      else if take 2 s = ''an'' \<and> word_boundary True (drop 2 s) then Some 2
      else if take 3 s = ''the'' \<and> word_boundary True (drop 3 s) then Some 3
      else None)"

text \<open>
  \<^verbatim>\<open>re.sub(r"\b(a|an|the)\b", " ", s)\<close>: scan from the left; where the pattern matches,
  write the replacement and go on behind the match; elsewhere copy one character.
\<close>

function sub_articles :: "bool \<Rightarrow> string \<Rightarrow> string" where
  "sub_articles prev [] = []"
| "sub_articles prev (c # cs) =
     (case match_article prev (c # cs) of
        Some n \<Rightarrow> '' '' @ sub_articles True (drop n (c # cs))
      | None \<Rightarrow> c # sub_articles (is_word_char c) cs)"
  by pat_completeness auto
termination
  by (relation "measure (\<lambda>(prev, s). length s)")
     (auto simp: match_article_def split: if_splits)

definition remove_articles :: "string \<Rightarrow> string" where
  "remove_articles s = sub_articles False s"

definition replace_punctuation :: "string \<Rightarrow> string \<Rightarrow> string" where
  "replace_punctuation s punc_repl =
     concat (map (\<lambda>ch. if in_punctuation ch then punc_repl else [ch]) s)"

definition white_space_fix :: "string \<Rightarrow> string" where
  "white_space_fix s = join '' '' (split s)"

definition normalize_squad :: "string \<Rightarrow> string" where
  "normalize_squad text0 =
     (let text1 = lower text0;
          text2 = replace_punctuation text1 [];
          text3 = remove_articles text2;
          text4 = white_space_fix text3
      in text4)"

section \<open>The normaliser in the words of the specification\<close>

text \<open>
  The four steps as the specification describes them, to be compared with the code:
  lower-case; delete every punctuation character; replace every whole word that is
  \<^verbatim>\<open>a\<close>, \<^verbatim>\<open>an\<close> or \<^verbatim>\<open>the\<close> by one space, a word being a maximal run of word characters;
  replace every run of white space by one space and trim both ends.
\<close>

definition spec_strip_punctuation :: "string \<Rightarrow> string" where
  "spec_strip_punctuation s = filter (\<lambda>c. \<not> in_punctuation c) s"

definition articles :: "string list" where
  "articles = [''a'', ''an'', ''the'']"

definition spec_word :: "string \<Rightarrow> string" where
  "spec_word w = (if w \<in> set articles then '' '' else w)"

text \<open>\<open>spec_words_from cur s\<close> reads \<open>s\<close> with the word begun so far in \<open>cur\<close>.\<close>

fun spec_words_from :: "string \<Rightarrow> string \<Rightarrow> string" where
  "spec_words_from cur [] = spec_word cur"
| "spec_words_from cur (c # cs) =
     (if is_word_char c then spec_words_from (cur @ [c]) cs
      else spec_word cur @ c # spec_words_from [] cs)"

definition spec_remove_articles :: "string \<Rightarrow> string" where
  "spec_remove_articles s = spec_words_from [] s"

text \<open>\<open>in_run\<close> tells whether the character before was white space.\<close>

fun spec_collapse :: "bool \<Rightarrow> string \<Rightarrow> string" where
  "spec_collapse in_run [] = []"
| "spec_collapse in_run (c # cs) =
     (if isspace c then (if in_run then spec_collapse True cs else CHR '' '' # spec_collapse True cs)
      else c # spec_collapse False cs)"

definition spec_trim :: "string \<Rightarrow> string" where
  "spec_trim s = rev (dropWhile isspace (rev (dropWhile isspace s)))"

text \<open>Two notions for the proofs: trimming on the right, and the end of a word.\<close>

definition rstrip :: "string \<Rightarrow> string" where
  "rstrip s = rev (dropWhile isspace (rev s))"

definition word_end :: "string \<Rightarrow> bool" where
  "word_end r = (case r of [] \<Rightarrow> True | c # _ \<Rightarrow> \<not> is_word_char c)"

definition spec_normalize :: "string \<Rightarrow> string" where
  "spec_normalize s =
     spec_trim (spec_collapse False (spec_remove_articles (spec_strip_punctuation (lower s))))"

section \<open>SQA-S: free-text answers\<close>

definition NO_ANSWER :: string where
  "NO_ANSWER = ''<no answer>''"

text \<open>A list comprehension over a function that may raise stops at the first error.\<close>

fun emap :: "('a \<Rightarrow> error + 'b) \<Rightarrow> 'a list \<Rightarrow> error + 'b list" where
  "emap f [] = Inr []"
| "emap f (x # xs) = ebind (f x) (\<lambda>y. ebind (emap f xs) (\<lambda>ys. Inr (y # ys)))"

text \<open>\<^verbatim>\<open>max\<close> of a list raises \<^verbatim>\<open>ValueError\<close> on the empty list.\<close>

fun py_max :: "real list \<Rightarrow> error + real" where
  "py_max [] = Inl ValueError"
| "py_max (x # xs) = Inr (fold max xs x)"

definition sqa_s_metrics :: "string \<Rightarrow> string list \<Rightarrow> error + (nat \<times> real)" where
  "sqa_s_metrics prediction ground_truths =
     (if prediction = NO_ANSWER then
        (if NO_ANSWER \<in> set ground_truths then Inr (1, 1) else Inr (0, 0))
      else
        let ground_truths1 = filter (\<lambda>gt. gt \<noteq> NO_ANSWER) ground_truths
        in if ground_truths1 = [] then Inr (0, 0)
           else
             let prediction1 = normalize_squad prediction;
                 ground_truths2 = map normalize_squad ground_truths1;
                 prediction_tokens = split prediction1;
                 exact_match = (if prediction1 \<in> set ground_truths2 then 1 else 0)
             in ebind (emap (\<lambda>gt. f1_score prediction_tokens (split gt)) ground_truths2) (\<lambda>f1s.
                ebind (py_max f1s) (\<lambda>f1.
                Inr (exact_match, f1))))"

section \<open>SQA-UIC: element lists\<close>

definition sqa_uic_metrics :: "'a list \<Rightarrow> 'a list list \<Rightarrow> error + (nat \<times> real)" where
  "sqa_uic_metrics prediction ground_truths =
     (if prediction = [] then
        (if [] \<in> set ground_truths then Inr (1, 1) else Inr (0, 0))
      else
        let ground_truths1 = filter (\<lambda>gt. gt \<noteq> []) ground_truths
        in if ground_truths1 = [] then Inr (0, 0)
           else
             let exact_match = (if prediction \<in> set ground_truths1 then 1 else 0)
             in ebind (emap (\<lambda>gt. f1_score prediction gt) ground_truths1) (\<lambda>f1s.
                ebind (py_max f1s) (\<lambda>f1.
                Inr (exact_match, f1))))"

section \<open>Assignment F1\<close>

text \<open>
  \<^verbatim>\<open>scipy.optimize.linear_sum_assignment\<close> is not part of the repository; the functions
  that call it take it as the parameter \<open>lsa\<close>. It receives a matrix as the list of its
  rows and returns the row and column indices of the chosen cells, here as a list of pairs.
\<close>

type_synonym matrix = "real list list"

type_synonym solver = "matrix \<Rightarrow> (nat \<times> nat) list"

definition cost_matrix ::
  "'a list \<Rightarrow> 'b list \<Rightarrow> ('a \<Rightarrow> 'b \<Rightarrow> error + real) \<Rightarrow> real \<Rightarrow> error + matrix" where
  "cost_matrix prediction ground_truth score_func threshold =
     emap (\<lambda>element1.
       emap (\<lambda>element2.
         ebind (score_func element1 element2) (\<lambda>score.
         Inr (if score \<ge> threshold then score else 0))) ground_truth) prediction"

definition cell :: "matrix \<Rightarrow> nat \<times> nat \<Rightarrow> real" where
  "cell cm ij = cm ! fst ij ! snd ij"

definition uic_bb_f1_score ::
  "solver \<Rightarrow> 'a list \<Rightarrow> 'b list \<Rightarrow> ('a \<Rightarrow> 'b \<Rightarrow> error + real) \<Rightarrow> real \<Rightarrow> error + real" where
  "uic_bb_f1_score lsa prediction ground_truth score_func threshold =
     (if prediction = [] \<and> ground_truth = [] then Inr 1
      else if prediction = [] \<or> ground_truth = [] then Inr 0
      else
        ebind (cost_matrix prediction ground_truth score_func threshold) (\<lambda>cm.
        let idxs = lsa (map (map uminus) cm);
            selected_costs = map (cell cm) idxs;
            matches = length (filter (\<lambda>c. c \<ge> threshold) selected_costs)
        in if matches = 0 then Inr 0
           else
             ebind (py_div (1 * real matches) (real (length prediction))) (\<lambda>precision.
             ebind (py_div (1 * real matches) (real (length ground_truth))) (\<lambda>recall.
             py_div (2 * precision * recall) (precision + recall)))))"

text \<open>
  What the documentation of the solver promises for a matrix of \<open>n\<close> rows and \<open>m\<close>
  columns: \<open>min n m\<close> cells, no two in one row or one column, of the least total cost
  among all such choices.
\<close>

definition is_matrix :: "nat \<Rightarrow> nat \<Rightarrow> matrix \<Rightarrow> bool" where
  "is_matrix n m cm = (length cm = n \<and> list_all (\<lambda>row. length row = m) cm)"

definition one_to_one :: "nat \<Rightarrow> nat \<Rightarrow> (nat \<times> nat) list \<Rightarrow> bool" where
  "one_to_one n m ps =
     (distinct (map fst ps) \<and> distinct (map snd ps) \<and> list_all (\<lambda>ij. fst ij < n \<and> snd ij < m) ps)"

definition full_assignment :: "nat \<Rightarrow> nat \<Rightarrow> (nat \<times> nat) list \<Rightarrow> bool" where
  "full_assignment n m ps = (one_to_one n m ps \<and> length ps = min n m)"

definition total :: "matrix \<Rightarrow> (nat \<times> nat) list \<Rightarrow> real" where
  "total cm ps = sum_list (map (cell cm) ps)"

definition lsa_contract :: "solver \<Rightarrow> bool" where
  "lsa_contract lsa =
     (\<forall>n m cm. 0 < n \<and> 0 < m \<and> is_matrix n m cm \<longrightarrow>
        full_assignment n m (lsa cm) \<and> (\<forall>qs. full_assignment n m qs \<longrightarrow> total cm (lsa cm) \<le> total cm qs))"

text \<open>
  A solver that meets the contract, by exhaustive search: \<open>injections rs cs\<close> lists every
  way to give the rows \<open>rs\<close>, in order, pairwise different columns out of \<open>cs\<close>.
\<close>

fun injections :: "nat list \<Rightarrow> nat list \<Rightarrow> (nat \<times> nat) list list" where
  "injections [] cs = [[]]"
| "injections (r # rs) cs =
     concat (map (\<lambda>c. map (\<lambda>ps. (r, c) # ps) (injections rs (remove1 c cs))) cs)"

definition swap_pairs :: "(nat \<times> nat) list \<Rightarrow> (nat \<times> nat) list" where
  "swap_pairs ps = map (\<lambda>ij. (snd ij, fst ij)) ps"

definition candidates :: "nat \<Rightarrow> nat \<Rightarrow> (nat \<times> nat) list list" where
  "candidates n m =
     (if n \<le> m then injections [0..<n] [0..<m]
      else map swap_pairs (injections [0..<m] [0..<n]))"

fun least_total :: "matrix \<Rightarrow> (nat \<times> nat) list list \<Rightarrow> (nat \<times> nat) list" where
  "least_total cm [] = []"
| "least_total cm [ps] = ps"
| "least_total cm (ps # qs # rest) =
     (let best = least_total cm (qs # rest)
      in if total cm ps \<le> total cm best then ps else best)"

definition lsa_search :: solver where
  "lsa_search cm = least_total cm (candidates (length cm) (if cm = [] then 0 else length (hd cm)))"

section \<open>SQA-UIC-BB: elements with bounding boxes\<close>

type_synonym 'c element = "bbox \<times> 'c"

definition ui_elements_match :: "'c element \<Rightarrow> 'c element \<Rightarrow> real \<Rightarrow> error + bool" where
  "ui_elements_match element1 element2 iou_threshold =
     (case element1 of (bbox1, content1) \<Rightarrow> case element2 of (bbox2, content2) \<Rightarrow>
        if content1 = content2 then ebind (iou bbox1 bbox2) (\<lambda>v. Inr (v \<ge> iou_threshold))
        else Inr False)"

text \<open>\<^verbatim>\<open>all\<close> and \<^verbatim>\<open>any\<close> over a generator stop at the first deciding element.\<close>

fun eall :: "('a \<Rightarrow> error + bool) \<Rightarrow> 'a list \<Rightarrow> error + bool" where
  "eall p [] = Inr True"
| "eall p (x # xs) = ebind (p x) (\<lambda>b. if b then eall p xs else Inr False)"

fun eany :: "('a \<Rightarrow> error + bool) \<Rightarrow> 'a list \<Rightarrow> error + bool" where
  "eany p [] = Inr False"
| "eany p (x # xs) = ebind (p x) (\<lambda>b. if b then Inr True else eany p xs)"

definition uic_bb_exact_match :: "'c element list \<Rightarrow> 'c element list \<Rightarrow> real \<Rightarrow> error + bool" where
  "uic_bb_exact_match elements1 elements2 iou_threshold =
     (if length elements1 \<noteq> length elements2 then Inr False
      else eall (\<lambda>el. ui_elements_match (fst el) (snd el) iou_threshold) (zip elements1 elements2))"

text \<open>The default value of the parameter \<^verbatim>\<open>iou_threshold\<close> of the three functions.\<close>

definition default_iou_threshold :: real where
  "default_iou_threshold = 1 / 10"

definition sqa_uic_bb_metrics ::
  "solver \<Rightarrow> 'c element list \<Rightarrow> 'c element list list \<Rightarrow> real \<Rightarrow> error + (real \<times> nat \<times> real)" where
  "sqa_uic_bb_metrics lsa prediction ground_truths iou_threshold =
     (if prediction = [] then
        (if [] \<in> set ground_truths then Inr (1, 1, 1) else Inr (0, 0, 0))
      else
        let ground_truths1 = filter (\<lambda>gt. gt \<noteq> []) ground_truths
        in if ground_truths1 = [] then Inr (0, 0, 0)
           else
             ebind (emap (\<lambda>gt. uic_bb_f1_score lsa (map fst prediction) (map fst gt) iou iou_threshold)
                      ground_truths1) (\<lambda>bbox_f1s.
             ebind (py_max bbox_f1s) (\<lambda>bbox_f1.
             ebind (eany (\<lambda>gt. uic_bb_exact_match prediction gt default_iou_threshold) ground_truths1)
               (\<lambda>exact_match.
             ebind (emap (\<lambda>gt. uic_bb_f1_score lsa prediction gt
                            (\<lambda>x y. if snd x = snd y then iou (fst x) (fst y) else Inr 0) iou_threshold)
                      ground_truths1) (\<lambda>f1s.
             ebind (py_max f1s) (\<lambda>f1.
             Inr (bbox_f1, if exact_match then 1 else 0, f1)))))))"

text \<open>
  Two elements agree at a threshold when their contents are equal and the intersection
  over union of their boxes reaches the threshold.
\<close>

definition iou_at_least :: "real \<Rightarrow> bbox \<Rightarrow> bbox \<Rightarrow> bool" where
  "iou_at_least t a b = (case iou a b of Inl e \<Rightarrow> False | Inr v \<Rightarrow> t \<le> v)"

definition elements_agree :: "real \<Rightarrow> 'c element \<times> 'c element \<Rightarrow> bool" where
  "elements_agree t el =
     (snd (fst el) = snd (snd el) \<and> iou_at_least t (fst (fst el)) (fst (snd el)))"

text \<open>
  \<^verbatim>\<open>ui_elements_match\<close> on float boxes, with the threshold a double: the comparison is
  that of doubles.
\<close>

definition ui_elements_match_double ::
  "dbox \<times> 'c \<Rightarrow> dbox \<times> 'c \<Rightarrow> double \<Rightarrow> error + bool" where
  "ui_elements_match_double element1 element2 iou_threshold =
     (case element1 of (bbox1, content1) \<Rightarrow> case element2 of (bbox2, content2) \<Rightarrow>
        if content1 = content2 then ebind (iou_double bbox1 bbox2) (\<lambda>v. Inr (dge v iou_threshold))
        else Inr False)"

section \<open>Statements about the assignment F1\<close>

text \<open>
  The matrix that \<open>cost_matrix\<close> builds for a score function that never raises, and the
  F1 that \<open>uic_bb_f1_score\<close> derives from a number of matches.
\<close>

definition thresholded :: "('a \<Rightarrow> 'b \<Rightarrow> real) \<Rightarrow> real \<Rightarrow> 'a list \<Rightarrow> 'b list \<Rightarrow> matrix" where
  "thresholded f t A B = map (\<lambda>a. map (\<lambda>b. if f a b \<ge> t then f a b else 0) B) A"

definition matches_in :: "matrix \<Rightarrow> real \<Rightarrow> (nat \<times> nat) list \<Rightarrow> nat" where
  "matches_in cm t ps = length (filter (\<lambda>ij. cell cm ij \<ge> t) ps)"

definition f1_of_matches :: "nat \<Rightarrow> nat \<Rightarrow> nat \<Rightarrow> real" where
  "f1_of_matches k n m =
     (let P = real k / real n; R = real k / real m
      in if k = 0 then 0 else 2 * P * R / (P + R))"

text \<open>
  The optimality statement at one input: some admissible assignment \<open>ps\<close> has the greatest
  total of thresholded scores among all admissible assignments, and the result of
  \<open>uic_bb_f1_score\<close> is the F1 of the number of its pairs that reach the threshold. The
  admissible assignments are either all one-to-one assignments (\<open>one_to_one\<close>) or those of
  \<open>min n m\<close> pairs, among which the solver chooses (\<open>full_assignment\<close>).
\<close>

definition assignment_f1_claim ::
  "(nat \<Rightarrow> nat \<Rightarrow> (nat \<times> nat) list \<Rightarrow> bool) \<Rightarrow> solver \<Rightarrow> 'a list \<Rightarrow> 'b list \<Rightarrow>
     ('a \<Rightarrow> 'b \<Rightarrow> real) \<Rightarrow> real \<Rightarrow> bool" where
  "assignment_f1_claim admissible lsa A B f t =
     (let n = length A; m = length B; cm = thresholded f t A B
      in \<exists>ps. admissible n m ps \<and>
              (\<forall>qs. admissible n m qs \<longrightarrow> total cm qs \<le> total cm ps) \<and>
              uic_bb_f1_score lsa A B (\<lambda>x y. Inr (f x y)) t
                = Inr (f1_of_matches (matches_in cm t ps) n m))"

text \<open>A score function that never raises, as an argument of \<open>uic_bb_f1_score\<close>.\<close>

definition pure_score :: "('a \<Rightarrow> 'b \<Rightarrow> real) \<Rightarrow> 'a \<Rightarrow> 'b \<Rightarrow> error + real" where
  "pure_score f x y = Inr (f x y)"

text \<open>Two score functions for examples: a constant one and plain equality.\<close>

definition minus_one_score :: "unit \<Rightarrow> unit \<Rightarrow> real" where
  "minus_one_score x y = - 1"

definition equality_score :: "'a \<Rightarrow> 'a \<Rightarrow> real" where
  "equality_score x y = (if x = y then 1 else 0)"

section \<open>Properties of the intersection over union\<close>

lemma ebind_Inr [simp]: "ebind (Inr v) k = k v"
  by (simp add: ebind_def)

lemma ebind_Inl [simp]: "ebind (Inl e) k = Inl e"
  by (simp add: ebind_def)

lemma iou_unfold:
  "iou a b =
     (let I = max 0 (min (b3 a) (b3 b) - max (b1 a) (b1 b)) *
              max 0 (min (b2 a) (b2 b) - max (b0 a) (b0 b))
      in if I = 0 then Inr 0 else py_div I (bbox_area a + bbox_area b - I))"
  by (simp add: iou_def Let_def bbox_area_def)

lemma overlap_le_area:
  fixes w h iw ih :: real
  assumes "0 < iw" "iw \<le> w" "0 < ih" "ih \<le> h"
  shows "iw * ih \<le> w * h"
  using assms by (intro mult_mono) simp_all

lemma iou_total: "\<exists>v. iou a b = Inr v \<and> 0 \<le> v \<and> v \<le> 1"
proof -
  define iw where "iw = min (b3 a) (b3 b) - max (b1 a) (b1 b)"
  define ih where "ih = min (b2 a) (b2 b) - max (b0 a) (b0 b)"
  define I where "I = max 0 iw * max 0 ih"
  have unf: "iou a b = (if I = 0 then Inr 0 else py_div I (bbox_area a + bbox_area b - I))"
    by (simp add: iou_unfold Let_def I_def iw_def ih_def)
  show ?thesis
  proof (cases "I = 0")
    case True
    then show ?thesis by (simp add: unf)
  next
    case False
    have iw: "0 < iw"
    proof (rule ccontr)
      assume "\<not> 0 < iw"
      then have "max 0 iw = 0" by simp
      then show False using False by (simp add: I_def)
    qed
    have ih: "0 < ih"
    proof (rule ccontr)
      assume "\<not> 0 < ih"
      then have "max 0 ih = 0" by simp
      then show False using False by (simp add: I_def)
    qed
    have I: "I = iw * ih" using iw ih by (simp add: I_def)
    have wa: "iw \<le> b3 a - b1 a" and ha: "ih \<le> b2 a - b0 a"
      and wb: "iw \<le> b3 b - b1 b" and hb: "ih \<le> b2 b - b0 b"
      unfolding iw_def ih_def by linarith+
    have Ia: "I \<le> bbox_area a" unfolding I bbox_area_def
      by (rule overlap_le_area [OF iw wa ih ha])
    have Ib: "I \<le> bbox_area b" unfolding I bbox_area_def
      by (rule overlap_le_area [OF iw wb ih hb])
    have Ipos: "0 < I" unfolding I using iw ih by simp
    define U where "U = bbox_area a + bbox_area b - I"
    have U: "0 < U" "I \<le> U" using Ia Ib Ipos unfolding U_def by linarith+
    have "iou a b = Inr (I / U)"
      using False U by (simp add: unf py_div_def U_def)
    moreover have "0 \<le> I / U" using U Ipos by simp
    moreover have "I / U \<le> 1" using U by simp
    ultimately show ?thesis by blast
  qed
qed

lemma iou_commute: "iou a b = iou b a"
  by (simp add: iou_def Let_def max.commute min.commute add.commute)

lemma iou_same_box:
  assumes "valid_bbox b"
  shows "iou b b = (if bbox_area b = 0 then Inr 0 else Inr 1)"
proof -
  have w: "max 0 (b3 b - b1 b) = b3 b - b1 b" and h: "max 0 (b2 b - b0 b) = b2 b - b0 b"
    using assms by (simp_all add: valid_bbox_def)
  show ?thesis
    by (simp add: iou_unfold Let_def w h bbox_area_def py_div_def)
qed

section \<open>Properties of the token F1\<close>

lemma sum_positive_entries:
  "sum_list (map snd (filter (\<lambda>kv. 0 < snd kv) (xs :: ('a \<times> nat) list))) = sum_list (map snd xs)"
  by (induction xs) auto

lemma counter_get_counter: "counter_get (counter ys) x = count_list ys x"
proof (cases "x \<in> set ys")
  case True
  then have "map_of (counter ys) x = Some (count_list ys x)"
    unfolding counter_def by (intro map_of_is_SomeI) (auto simp: comp_def)
  then show ?thesis by (simp add: counter_get_def)
next
  case False
  then have "map_of (counter ys) x = None"
    unfolding counter_def by (simp add: map_of_eq_None_iff image_image)
  then show ?thesis using False by (simp add: counter_get_def)
qed

lemma num_same_sum:
  "num_same xs ys = (\<Sum>x\<in>set xs. min (count_list xs x) (count_list ys x))"
proof -
  have "num_same xs ys =
      sum_list (map (\<lambda>x. min (count_list xs x) (count_list ys x)) (remdups xs))"
  proof -
    have "num_same xs ys =
        sum_list (map (\<lambda>kv. min (snd kv) (count_list ys (fst kv))) (counter xs))"
      by (simp add: num_same_def counter_and_def sum_positive_entries counter_get_counter comp_def)
    then show ?thesis by (simp add: counter_def comp_def)
  qed
  then show ?thesis
    by (simp add: sum_list_distinct_conv_sum_set)
qed

lemma num_same_mset: "num_same xs ys = size (mset xs \<inter># mset ys)"
proof -
  have "size (mset xs \<inter># mset ys) =
      (\<Sum>x\<in>set_mset (mset xs \<inter># mset ys). min (count_list xs x) (count_list ys x))"
    by (simp add: size_multiset_overloaded_eq count_mset)
  also have "\<dots> = (\<Sum>x\<in>set xs. min (count_list xs x) (count_list ys x))"
  proof (rule sum.mono_neutral_left)
    show "finite (set xs)" by simp
    show "set_mset (mset xs \<inter># mset ys) \<subseteq> set xs" by auto
    show "\<forall>i\<in>set xs - set_mset (mset xs \<inter># mset ys). min (count_list xs i) (count_list ys i) = 0"
      by (auto simp: count_list_0_iff)
  qed
  finally show ?thesis by (simp add: num_same_sum)
qed

lemma num_same_le: "num_same xs ys \<le> length xs" "num_same xs ys \<le> length ys"
proof -
  have "size (mset xs \<inter># mset ys) \<le> size (mset xs)"
    by (rule size_mset_mono) simp
  then show "num_same xs ys \<le> length xs" by (simp add: num_same_mset)
  have "size (mset xs \<inter># mset ys) \<le> size (mset ys)"
    by (rule size_mset_mono) simp
  then show "num_same xs ys \<le> length ys" by (simp add: num_same_mset)
qed

lemma harmonic_mean_defined:
  assumes "0 < k" "k \<le> n" "k \<le> m"
  shows "ebind (py_div (1 * real k) (real n)) (\<lambda>precision.
         ebind (py_div (1 * real k) (real m)) (\<lambda>recall.
         py_div (2 * precision * recall) (precision + recall)))
       = Inr (2 * (real k / real n) * (real k / real m) / (real k / real n + real k / real m))"
proof -
  have n: "0 < real n" and m: "0 < real m" and k: "0 < real k" using assms by simp_all
  have "0 < real k / real n + real k / real m"
    using n m k by (simp add: add_pos_pos)
  then show ?thesis using n m by (simp add: py_div_def)
qed

lemma f1_score_value:
  "f1_score xs ys =
     (if num_same xs ys = 0 then Inr 0
      else Inr (2 * (real (num_same xs ys) / real (length xs)) * (real (num_same xs ys) / real (length ys))
                / (real (num_same xs ys) / real (length xs) + real (num_same xs ys) / real (length ys))))"
proof (cases "num_same xs ys = 0")
  case True
  then show ?thesis by (simp add: f1_score_def)
next
  case False
  then have "0 < num_same xs ys" by simp
  from harmonic_mean_defined [OF this num_same_le(1) num_same_le(2)] False
  show ?thesis by (simp add: f1_score_def Let_def)
qed

text \<open>
  Claim C9. \<open>f1_score\<close> returns a number for every pair of lists: no division by zero is
  reached. When one of the lists is empty the intersection of the two counters is empty,
  \<open>num_same\<close> is 0 and the result is 0, returned before either division.
\<close>

theorem f1_score_total:
  "(\<exists>v. f1_score xs ys = Inr v) \<and>
   (xs = [] \<or> ys = [] \<longrightarrow> num_same xs ys = 0 \<and> f1_score xs ys = Inr 0)"
proof -
  have "xs = [] \<or> ys = [] \<Longrightarrow> num_same xs ys = 0"
    using num_same_le(1) [of xs ys] num_same_le(2) [of xs ys] by auto
  then show ?thesis by (auto simp: f1_score_value)
qed

theorem f1_score_total_witness:
  "num_same ([] :: string list) [''a''] = 0 \<and> f1_score ([] :: string list) [''a''] = Inr 0 \<and>
   num_same [''a''] ([] :: string list) = 0 \<and> f1_score [''a''] ([] :: string list) = Inr 0 \<and>
   (\<exists>v. f1_score [''a'', ''b''] [''b'', ''c''] = Inr v)"
  using f1_score_total [of "[] :: string list" "[''a'']"]
    f1_score_total [of "[''a'']" "[] :: string list"]
    f1_score_total [of "[''a'', ''b'']" "[''b'', ''c'']"]
  by simp

section \<open>Properties of the SQA-S metrics\<close>

lemma emap_total:
  "(\<And>x. x \<in> set xs \<Longrightarrow> \<exists>v. f x = Inr v) \<Longrightarrow> \<exists>vs. emap f xs = Inr vs \<and> length vs = length xs"
proof (induction xs)
  case Nil
  then show ?case by simp
next
  case (Cons x xs)
  then obtain v where v: "f x = Inr v" by auto
  from Cons obtain vs where "emap f xs = Inr vs" "length vs = length xs" by auto
  with v show ?case by simp
qed

lemma py_max_total: "vs \<noteq> [] \<Longrightarrow> \<exists>v. py_max vs = Inr v"
  by (cases vs) simp_all

lemma sqa_s_metrics_total: "\<exists>r. sqa_s_metrics p gts = Inr r"
proof (cases "p = NO_ANSWER \<or> filter (\<lambda>gt. gt \<noteq> NO_ANSWER) gts = []")
  case True
  then show ?thesis by (auto simp: sqa_s_metrics_def)
next
  case False
  define gs where "gs = map normalize_squad (filter (\<lambda>gt. gt \<noteq> NO_ANSWER) gts)"
  have ne: "gs \<noteq> []" using False by (simp add: gs_def)
  obtain vs where vs: "emap (\<lambda>gt. f1_score (split (normalize_squad p)) (split gt)) gs = Inr vs"
    "length vs = length gs"
    using emap_total [of gs "\<lambda>gt. f1_score (split (normalize_squad p)) (split gt)"]
      f1_score_value by metis
  then have "vs \<noteq> []" using ne by auto
  then obtain v where "py_max vs = Inr v" using py_max_total by blast
  with vs False show ?thesis
    by (simp add: sqa_s_metrics_def Let_def gs_def)
qed

text \<open>
  Claim C5. With the prediction \<open>NO_ANSWER\<close> the result is \<open>(1, 1)\<close> when some ground truth
  is \<open>NO_ANSWER\<close> and \<open>(0, 0)\<close> otherwise; it depends on nothing but these comparisons of
  the raw strings. With another prediction and only \<open>NO_ANSWER\<close> ground truths, nothing is
  left after the filter and the result is \<open>(0, 0)\<close>. In every case a value is returned and
  no error raised.
\<close>

theorem sqa_s_metrics_no_answer:
  "sqa_s_metrics NO_ANSWER gts = (if NO_ANSWER \<in> set gts then Inr (1, 1) else Inr (0, 0)) \<and>
   (p \<noteq> NO_ANSWER \<and> (\<forall>gt \<in> set gts. gt = NO_ANSWER) \<longrightarrow> sqa_s_metrics p gts = Inr (0, 0)) \<and>
   (\<exists>r. sqa_s_metrics p gts = Inr r)"
proof -
  have "filter (\<lambda>gt. gt \<noteq> NO_ANSWER) gts = []" if "\<forall>gt \<in> set gts. gt = NO_ANSWER"
    using that by (simp add: filter_empty_conv)
  then show ?thesis
    using sqa_s_metrics_total [of p gts] by (simp add: sqa_s_metrics_def)
qed

theorem sqa_s_metrics_no_answer_witness:
  "sqa_s_metrics NO_ANSWER [NO_ANSWER] = Inr (1, 1) \<and>
   sqa_s_metrics NO_ANSWER [''paris''] = Inr (0, 0) \<and>
   ''Paris'' \<noteq> NO_ANSWER \<and>
   sqa_s_metrics ''Paris'' [NO_ANSWER, NO_ANSWER] = Inr (0, 0)"
  using sqa_s_metrics_no_answer [of "[NO_ANSWER]" "''Paris''"]
    sqa_s_metrics_no_answer [of "[''paris'']" "''Paris''"]
    sqa_s_metrics_no_answer [of "[NO_ANSWER, NO_ANSWER]" "''Paris''"]
  by (simp add: NO_ANSWER_def)

lemma normalize_no_answer: "normalize_squad NO_ANSWER = ''no answer''"
  unfolding NO_ANSWER_def by code_simp

lemma normalize_capital_no_answer: "normalize_squad ''<No Answer>'' = ''no answer''"
  by code_simp

lemma num_same_self: "num_same xs xs = length xs"
  by (simp add: num_same_mset)

lemma f1_score_self: "xs \<noteq> [] \<Longrightarrow> f1_score xs xs = Inr 1"
  by (simp add: f1_score_value num_same_self)

lemma normalize_plain_no_answer: "normalize_squad ''no answer'' = ''no answer''"
  by code_simp

lemma split_no_answer: "split ''no answer'' = [''no'', ''answer'']"
  by code_simp

lemma exact_match_of_text:
  assumes "p \<noteq> NO_ANSWER"
  shows "\<exists>f1. sqa_s_metrics p gts =
           Inr (if normalize_squad p
                   \<in> set (map normalize_squad (filter (\<lambda>gt. gt \<noteq> NO_ANSWER) gts))
                then 1 else 0, f1)"
proof (cases "filter (\<lambda>gt. gt \<noteq> NO_ANSWER) gts = []")
  case True
  then show ?thesis using assms by (simp add: sqa_s_metrics_def)
next
  case False
  obtain r where r: "sqa_s_metrics p gts = Inr r" using sqa_s_metrics_total by blast
  from r assms False have "fst r =
      (if normalize_squad p \<in> set (map normalize_squad (filter (\<lambda>gt. gt \<noteq> NO_ANSWER) gts))
       then 1 else 0)"
    unfolding sqa_s_metrics_def Let_def
    by (auto simp: ebind_def split: sum.splits if_splits)
  then have "r = (if normalize_squad p
                     \<in> set (map normalize_squad (filter (\<lambda>gt. gt \<noteq> NO_ANSWER) gts))
                  then 1 else 0, snd r)"
    by (cases r) simp
  with r show ?thesis by metis
qed

lemma text_against_text:
  assumes "p \<noteq> NO_ANSWER" "g \<noteq> NO_ANSWER" "normalize_squad p = normalize_squad g"
    "split (normalize_squad p) \<noteq> []"
  shows "sqa_s_metrics p [g] = Inr (1, 1)"
  using assms by (simp add: sqa_s_metrics_def f1_score_self)

text \<open>
  Claim C10. The sentinel is recognised by equality of the raw strings, before any
  normalisation. \<^verbatim>\<open><No Answer>\<close> and \<^verbatim>\<open><no answer>\<close> have the same normal form,
  \<^verbatim>\<open>no answer\<close>. As a prediction, \<^verbatim>\<open><No Answer>\<close> is ordinary text: it scores \<open>(0, 0)\<close>
  against the sentinel, which the filter removes, and \<open>(1, 1)\<close> against \<^verbatim>\<open>no answer\<close>; as a
  ground truth it is kept and compared as text. The sentinel itself is never compared as
  text: as a prediction it scores \<open>(0, 0)\<close> against ground truths of the same normal form.
  For every prediction other than the sentinel the exact match is the comparison of the
  normal forms with the ground truths that are not, as raw strings, the sentinel.
\<close>

theorem no_answer_is_raw_equality:
  "sqa_s_metrics ''<No Answer>'' [''<no answer>''] = Inr (0, 0) \<and>
   normalize_squad ''<No Answer>'' = normalize_squad ''<no answer>'' \<and>
   sqa_s_metrics ''<No Answer>'' [''no answer''] = Inr (1, 1) \<and>
   sqa_s_metrics ''no answer'' [''<No Answer>''] = Inr (1, 1) \<and>
   sqa_s_metrics ''<no answer>'' [''no answer''] = Inr (0, 0) \<and>
   sqa_s_metrics ''<no answer>'' [''<No Answer>''] = Inr (0, 0) \<and>
   sqa_s_metrics NO_ANSWER gts = (if NO_ANSWER \<in> set gts then Inr (1, 1) else Inr (0, 0)) \<and>
   (p \<noteq> NO_ANSWER \<longrightarrow>
      (\<exists>f1. sqa_s_metrics p gts =
         Inr (if normalize_squad p
                 \<in> set (map normalize_squad (filter (\<lambda>gt. gt \<noteq> NO_ANSWER) gts))
              then 1 else 0, f1)))"
proof -
  have ne: "''<No Answer>'' \<noteq> NO_ANSWER" "''no answer'' \<noteq> NO_ANSWER"
    by (simp_all add: NO_ANSWER_def)
  have n: "normalize_squad ''<No Answer>'' = ''no answer''"
    "normalize_squad ''<no answer>'' = ''no answer''"
    using normalize_capital_no_answer normalize_no_answer by (simp_all add: NO_ANSWER_def)
  have tok: "split (normalize_squad ''<No Answer>'') \<noteq> []"
    "split (normalize_squad ''no answer'') \<noteq> []"
    by (simp_all add: n normalize_plain_no_answer split_no_answer)
  have 1: "sqa_s_metrics ''<No Answer>'' [''<no answer>''] = Inr (0, 0)"
    using ne by (simp add: sqa_s_metrics_def NO_ANSWER_def)
  have 3: "sqa_s_metrics ''<No Answer>'' [''no answer''] = Inr (1, 1)"
    by (rule text_against_text [OF ne(1) ne(2) _ tok(1)]) (simp add: n normalize_plain_no_answer)
  have 4: "sqa_s_metrics ''no answer'' [''<No Answer>''] = Inr (1, 1)"
    by (rule text_against_text [OF ne(2) ne(1) _ tok(2)]) (simp add: n normalize_plain_no_answer)
  have 5: "sqa_s_metrics ''<no answer>'' [''no answer''] = Inr (0, 0)"
    "sqa_s_metrics ''<no answer>'' [''<No Answer>''] = Inr (0, 0)"
    by (simp_all add: sqa_s_metrics_def NO_ANSWER_def)
  have 7: "sqa_s_metrics NO_ANSWER gts = (if NO_ANSWER \<in> set gts then Inr (1, 1) else Inr (0, 0))"
    by (simp add: sqa_s_metrics_def)
  show ?thesis
    using 1 3 4 5 7 n exact_match_of_text [of p gts] by simp
qed

theorem no_answer_is_raw_equality_witness:
  "''<NO ANSWER>'' \<noteq> NO_ANSWER \<and> normalize_squad ''<NO ANSWER>'' = normalize_squad NO_ANSWER \<and>
   (\<exists>f1. sqa_s_metrics ''<NO ANSWER>'' [NO_ANSWER, ''No  answer!''] = Inr (1, f1)) \<and>
   (\<exists>f1. sqa_s_metrics ''<NO ANSWER>'' [NO_ANSWER] = Inr (0, f1))"
proof -
  have n: "normalize_squad ''<NO ANSWER>'' = ''no answer''"
    "normalize_squad ''No  answer!'' = ''no answer''" by code_simp+
  have ne: "''<NO ANSWER>'' \<noteq> NO_ANSWER" "''No  answer!'' \<noteq> NO_ANSWER"
    by (simp_all add: NO_ANSWER_def)
  have "\<exists>f1. sqa_s_metrics ''<NO ANSWER>'' [NO_ANSWER] = Inr (0, f1)"
    using no_answer_is_raw_equality [of "[NO_ANSWER]" "''<NO ANSWER>''"] ne by simp
  moreover have "\<exists>f1. sqa_s_metrics ''<NO ANSWER>'' [NO_ANSWER, ''No  answer!''] = Inr (1, f1)"
    using no_answer_is_raw_equality [of "[NO_ANSWER, ''No  answer!'']" "''<NO ANSWER>''"] ne n
    by simp
  ultimately show ?thesis using ne n normalize_no_answer by simp
qed

section \<open>Properties of the assignment F1\<close>

text \<open>
  Claim C4. The assignment F1 of two empty lists is 1; with exactly one of the two lists
  empty it is 0. Neither the solver nor the score function is consulted.
\<close>

theorem uic_bb_f1_score_empty:
  "uic_bb_f1_score lsa [] [] f t = Inr 1 \<and>
   (ys \<noteq> [] \<longrightarrow> uic_bb_f1_score lsa [] ys f t = Inr 0) \<and>
   (xs \<noteq> [] \<longrightarrow> uic_bb_f1_score lsa xs [] f t = Inr 0)"
  by (simp add: uic_bb_f1_score_def)

theorem uic_bb_f1_score_empty_witness:
  "uic_bb_f1_score lsa_search ([] :: nat list) [5 :: nat] (\<lambda>x y. Inr 1) (1 / 2) = Inr 0 \<and>
   uic_bb_f1_score lsa_search [5 :: nat] ([] :: nat list) (\<lambda>x y. Inr 1) (1 / 2) = Inr 0"
  using uic_bb_f1_score_empty [of lsa_search "\<lambda>x y. Inr 1" "1 / 2" "[5 :: nat]" "[5 :: nat]"]
  by simp

text \<open>On a matrix of one cell the exhaustive solver has one choice.\<close>

lemma lsa_search_1x1: "lsa_search [[c]] = [(0, 0)]"
  by (simp add: lsa_search_def candidates_def)

section \<open>The exhaustive solver meets the contract\<close>

lemma injections_sound:
  "distinct cs \<Longrightarrow> ps \<in> set (injections rs cs) \<Longrightarrow>
     map fst ps = rs \<and> distinct (map snd ps) \<and> set (map snd ps) \<subseteq> set cs"
proof (induction rs arbitrary: cs ps)
  case Nil
  then show ?case by simp
next
  case (Cons r rs)
  from Cons.prems(2) obtain c ps' where c: "c \<in> set cs" and ps: "ps = (r, c) # ps'"
    and ps': "ps' \<in> set (injections rs (remove1 c cs))"
    by auto
  have "distinct (remove1 c cs)" using Cons.prems(1) by simp
  from Cons.IH [OF this ps']
  have ih: "map fst ps' = rs" "distinct (map snd ps')" "set (map snd ps') \<subseteq> set (remove1 c cs)"
    by simp_all
  have "set (remove1 c cs) = set cs - {c}" using Cons.prems(1) by simp
  with ih c ps show ?case by auto
qed

lemma injections_complete:
  "distinct cs \<Longrightarrow> distinct (map snd qs) \<Longrightarrow> set (map snd qs) \<subseteq> set cs \<Longrightarrow>
   mset (map fst qs) = mset rs \<Longrightarrow> \<exists>ps \<in> set (injections rs cs). mset ps = mset qs"
proof (induction rs arbitrary: cs qs)
  case Nil
  then show ?case by simp
next
  case (Cons r rs)
  have "r \<in># mset (map fst qs)" using Cons.prems(4) by simp
  then have "r \<in> fst ` set qs" by simp
  then obtain c where rc: "(r, c) \<in> set qs" by force
  define qs' where "qs' = remove1 (r, c) qs"
  have m: "mset qs = add_mset (r, c) (mset qs')"
    using rc by (simp add: qs'_def)
  have mf: "mset (map fst qs) = add_mset r (mset (map fst qs'))"
    and ms: "mset (map snd qs) = add_mset c (mset (map snd qs'))"
    using arg_cong [OF m, of "image_mset fst"] arg_cong [OF m, of "image_mset snd"] by simp_all
  have f': "mset (map fst qs') = mset rs" using mf Cons.prems(4) by simp
  have "mset (map snd qs) = mset (c # map snd qs')" using ms by simp
  then have "distinct (c # map snd qs')"
    using Cons.prems(2) mset_eq_imp_distinct_iff by blast
  then have d': "distinct (map snd qs')" and cn: "c \<notin> set (map snd qs')" by simp_all
  have "set (map snd qs') \<subseteq> set (map snd qs)"
    unfolding qs'_def using set_remove1_subset [of "(r, c)" qs] by auto
  then have s': "set (map snd qs') \<subseteq> set (remove1 c cs)"
    using Cons.prems(1,3) cn by auto
  have cin: "c \<in> set cs" using rc Cons.prems(3) by force
  have "distinct (remove1 c cs)" using Cons.prems(1) by simp
  from Cons.IH [OF this d' s' f'] obtain ps' where
    ps': "ps' \<in> set (injections rs (remove1 c cs))" "mset ps' = mset qs'" by blast
  have "(r, c) # ps' \<in> set (injections (r # rs) cs)" using cin ps'(1) by auto
  moreover have "mset ((r, c) # ps') = mset qs" using m ps'(2) by simp
  ultimately show ?case by blast
qed

lemma injections_nonempty: "length rs \<le> length cs \<Longrightarrow> injections rs cs \<noteq> []"
proof (induction rs arbitrary: cs)
  case Nil
  then show ?case by simp
next
  case (Cons r rs)
  then obtain c cs' where cs: "cs = c # cs'" by (cases cs) auto
  have "length rs \<le> length (remove1 c cs)" using Cons.prems cs by simp
  from Cons.IH [OF this] obtain p where "p \<in> set (injections rs (remove1 c cs))"
    by (cases "injections rs (remove1 c cs)") auto
  then have "(r, c) # p \<in> set (injections (r # rs) cs)" using cs by auto
  then have "0 < length (injections (r # rs) cs)" by (rule length_pos_if_in_set)
  then show ?case using length_greater_0_conv by blast
qed

lemma total_mset: "mset ps = mset qs \<Longrightarrow> total cm ps = total cm qs"
proof -
  assume "mset ps = mset qs"
  then have "mset (map (cell cm) ps) = mset (map (cell cm) qs)" by simp
  then have "sum_mset (mset (map (cell cm) ps)) = sum_mset (mset (map (cell cm) qs))" by simp
  then show ?thesis unfolding total_def by (simp only: sum_mset_sum_list)
qed

lemma least_total_least:
  "cands \<noteq> [] \<Longrightarrow>
     least_total cm cands \<in> set cands \<and> (\<forall>ps \<in> set cands. total cm (least_total cm cands) \<le> total cm ps)"
proof (induction cm cands rule: least_total.induct)
  case (1 cm)
  then show ?case by simp
next
  case (2 cm ps)
  then show ?case by simp
next
  case (3 cm ps qs rest)
  then have ih: "least_total cm (qs # rest) \<in> set (qs # rest)"
    "\<forall>p \<in> set (qs # rest). total cm (least_total cm (qs # rest)) \<le> total cm p"
    by simp_all
  show ?case
  proof (cases "total cm ps \<le> total cm (least_total cm (qs # rest))")
    case True
    then have "least_total cm (ps # qs # rest) = ps" by (simp add: Let_def)
    moreover have "\<forall>p \<in> set (ps # qs # rest). total cm ps \<le> total cm p"
      using True ih(2) by auto
    ultimately show ?thesis by simp
  next
    case False
    then have "least_total cm (ps # qs # rest) = least_total cm (qs # rest)" by (simp add: Let_def)
    moreover have "\<forall>p \<in> set (ps # qs # rest). total cm (least_total cm (qs # rest)) \<le> total cm p"
      using False ih(2) by auto
    ultimately show ?thesis using ih(1) by simp
  qed
qed

lemma one_to_one_rows:
  assumes "one_to_one n m ps"
  shows "distinct (map fst ps)" "set (map fst ps) \<subseteq> {..<n}"
    "distinct (map snd ps)" "set (map snd ps) \<subseteq> {..<m}"
  using assms by (auto simp: one_to_one_def list_all_iff)

lemma distinct_full_range:
  assumes "distinct xs" "set xs \<subseteq> {..<k}" "length xs = k"
  shows "mset xs = mset [0..<k]"
proof -
  have "card (set xs) = k" using assms(1,3) by (simp add: distinct_card)
  then have "set xs = {..<k}"
    using assms(2) by (simp add: card_subset_eq)
  then have "set xs = set [0..<k]" by (simp add: lessThan_atLeast0)
  with assms(1) show ?thesis by (metis distinct_upt set_eq_iff_mset_eq_distinct)
qed

lemma one_to_oneI:
  assumes "distinct (map fst ps)" "distinct (map snd ps)"
    "set (map fst ps) \<subseteq> {..<n}" "set (map snd ps) \<subseteq> {..<m}"
  shows "one_to_one n m ps"
proof -
  have "fst ij < n \<and> snd ij < m" if "ij \<in> set ps" for ij
  proof -
    from that have "fst ij \<in> set (map fst ps)" "snd ij \<in> set (map snd ps)" by simp_all
    with assms(3,4) show ?thesis by blast
  qed
  with assms(1,2) show ?thesis by (simp add: one_to_one_def list_all_iff)
qed

lemma injections_upt:
  assumes "ps \<in> set (injections [0..<k] [0..<l])"
  shows "length ps = k" "distinct (map fst ps)" "set (map fst ps) \<subseteq> {..<k}"
    "distinct (map snd ps)" "set (map snd ps) \<subseteq> {..<l}"
proof -
  from injections_sound [OF _ assms]
  have f: "map fst ps = [0..<k]" and d: "distinct (map snd ps)"
    and s: "set (map snd ps) \<subseteq> set [0..<l]"
    by simp_all
  show "length ps = k" using arg_cong [OF f, of length] by simp
  show "distinct (map fst ps)" by (simp only: f distinct_upt)
  show "set (map fst ps) \<subseteq> {..<k}" by (simp only: f) auto
  show "distinct (map snd ps)" by (rule d)
  show "set (map snd ps) \<subseteq> {..<l}" using s by auto
qed

lemma swap_pairs_twice [simp]: "swap_pairs (swap_pairs ps) = ps"
  by (simp add: swap_pairs_def comp_def)

lemma swap_pairs_fst [simp]: "map fst (swap_pairs ps) = map snd ps"
  by (simp add: swap_pairs_def comp_def)

lemma swap_pairs_snd [simp]: "map snd (swap_pairs ps) = map fst ps"
  by (simp add: swap_pairs_def comp_def)

lemma swap_pairs_mset: "mset ps = mset qs \<Longrightarrow> mset (swap_pairs ps) = mset (swap_pairs qs)"
  by (simp add: swap_pairs_def)

lemma candidates_complete:
  assumes "ps \<in> set (candidates n m)"
  shows "full_assignment n m ps"
proof (cases "n \<le> m")
  case True
  then have "ps \<in> set (injections [0..<n] [0..<m])" using assms by (simp add: candidates_def)
  note i = injections_upt [OF this]
  have "one_to_one n m ps" by (rule one_to_oneI [OF i(2) i(4) i(3) i(5)])
  then show ?thesis using True i(1) by (simp add: full_assignment_def)
next
  case False
  then obtain qs where qs: "qs \<in> set (injections [0..<m] [0..<n])" and ps: "ps = swap_pairs qs"
    using assms by (auto simp: candidates_def)
  note i = injections_upt [OF qs]
  have "one_to_one n m ps"
    unfolding ps by (rule one_to_oneI) (use i in simp_all)
  moreover have "length ps = m" unfolding ps using i(1) by (simp add: swap_pairs_def)
  ultimately show ?thesis using False by (simp add: full_assignment_def)
qed

lemma candidates_cover:
  assumes "full_assignment n m qs"
  shows "\<exists>ps \<in> set (candidates n m). mset ps = mset qs"
proof -
  from assms have o: "one_to_one n m qs" and len: "length qs = min n m"
    by (simp_all add: full_assignment_def)
  note r = one_to_one_rows [OF o]
  show ?thesis
  proof (cases "n \<le> m")
    case True
    then have "length (map fst qs) = n" using len by simp
    from distinct_full_range [OF r(1) r(2) this]
    have "mset (map fst qs) = mset [0..<n]" .
    moreover have "set (map snd qs) \<subseteq> set [0..<m]" using r(4) by auto
    ultimately have "\<exists>ps \<in> set (injections [0..<n] [0..<m]). mset ps = mset qs"
      using injections_complete [of "[0..<m]" qs "[0..<n]"] r(3) by simp
    then show ?thesis using True by (simp add: candidates_def)
  next
    case False
    then have "length (map snd qs) = m" using len by simp
    from distinct_full_range [OF r(3) r(4) this]
    have "mset (map fst (swap_pairs qs)) = mset [0..<m]" by simp
    moreover have "set (map snd (swap_pairs qs)) \<subseteq> set [0..<n]" using r(2) by auto
    moreover have "distinct (map snd (swap_pairs qs))" using r(1) by simp
    ultimately obtain ps' where ps': "ps' \<in> set (injections [0..<m] [0..<n])"
      "mset ps' = mset (swap_pairs qs)"
      using injections_complete [of "[0..<n]" "swap_pairs qs" "[0..<m]"] by auto
    from swap_pairs_mset [OF ps'(2)] have "mset (swap_pairs ps') = mset qs" by simp
    moreover have "swap_pairs ps' \<in> set (candidates n m)"
      using False ps'(1) by (simp add: candidates_def)
    ultimately show ?thesis by blast
  qed
qed

lemma candidates_nonempty: "candidates n m \<noteq> []"
proof (cases "n \<le> m")
  case True
  then show ?thesis using injections_nonempty [of "[0..<n]" "[0..<m]"] by (simp add: candidates_def)
next
  case False
  then show ?thesis using injections_nonempty [of "[0..<m]" "[0..<n]"] by (simp add: candidates_def)
qed

lemma lsa_search_meets_contract: "lsa_contract lsa_search"
  unfolding lsa_contract_def
proof (intro allI impI, elim conjE)
  fix n m cm
  assume n: "0 < n" and m: "0 < m" and mat: "is_matrix n m cm"
  from mat n have ne: "cm \<noteq> []" and len: "length cm = n" by (auto simp: is_matrix_def)
  then have "hd cm \<in> set cm" by simp
  with mat have "length (hd cm) = m" by (auto simp: is_matrix_def list_all_iff)
  with ne len have eq: "lsa_search cm = least_total cm (candidates n m)"
    by (simp add: lsa_search_def)
  note lt = least_total_least [OF candidates_nonempty, of cm n m]
  have c: "full_assignment n m (lsa_search cm)"
    unfolding eq using lt candidates_complete by blast
  have "total cm (lsa_search cm) \<le> total cm qs" if "full_assignment n m qs" for qs
  proof -
    from candidates_cover [OF that] obtain ps where
      ps: "ps \<in> set (candidates n m)" "mset ps = mset qs" by blast
    have "total cm (lsa_search cm) \<le> total cm ps" unfolding eq using lt ps(1) by blast
    then show ?thesis using total_mset [OF ps(2)] by simp
  qed
  with c show "full_assignment n m (lsa_search cm) \<and>
      (\<forall>qs. full_assignment n m qs \<longrightarrow> total cm (lsa_search cm) \<le> total cm qs)"
    by blast
qed

section \<open>Optimal assignments\<close>

lemma emap_Inr: "emap (\<lambda>x. Inr (g x)) xs = Inr (map g xs)"
  by (induction xs) simp_all

lemma cost_matrix_thresholded:
  "cost_matrix A B (\<lambda>x y. Inr (f x y)) t = Inr (thresholded f t A B)"
  by (simp add: cost_matrix_def thresholded_def emap_Inr)

lemma is_matrix_thresholded: "is_matrix (length A) (length B) (thresholded f t A B)"
  by (simp add: is_matrix_def thresholded_def list_all_iff)

lemma is_matrix_uminus: "is_matrix n m cm \<Longrightarrow> is_matrix n m (map (map uminus) cm)"
  by (auto simp: is_matrix_def list_all_iff)

lemma cell_thresholded:
  "i < length A \<Longrightarrow> j < length B \<Longrightarrow>
     cell (thresholded f t A B) (i, j) = (if f (A ! i) (B ! j) \<ge> t then f (A ! i) (B ! j) else 0)"
  by (simp add: cell_def thresholded_def)

lemma cell_uminus:
  assumes "is_matrix n m cm" "fst ij < n" "snd ij < m"
  shows "cell (map (map uminus) cm) ij = - cell cm ij"
proof -
  have "length cm = n" using assms(1) by (simp add: is_matrix_def)
  moreover then have "length (cm ! fst ij) = m"
    using assms(1,2) by (simp add: is_matrix_def list_all_length)
  ultimately show ?thesis using assms(2,3) by (simp add: cell_def)
qed

lemma sum_list_negated:
  "(\<And>x. x \<in> set xs \<Longrightarrow> g x = - h x) \<Longrightarrow> sum_list (map g xs) = - sum_list (map h xs :: real list)"
  by (induction xs) simp_all

lemma total_uminus:
  assumes "is_matrix n m cm" "one_to_one n m ps"
  shows "total (map (map uminus) cm) ps = - total cm ps"
  unfolding total_def
proof (rule sum_list_negated)
  fix ij assume "ij \<in> set ps"
  then have "fst ij < n" "snd ij < m"
    using assms(2) by (auto simp: one_to_one_def list_all_iff)
  then show "cell (map (map uminus) cm) ij = - cell cm ij"
    by (rule cell_uminus [OF assms(1)])
qed

lemma solver_greatest_total:
  assumes "lsa_contract lsa" "0 < n" "0 < m" "is_matrix n m cm"
  shows "full_assignment n m (lsa (map (map uminus) cm))"
    and "full_assignment n m qs \<Longrightarrow> total cm qs \<le> total cm (lsa (map (map uminus) cm))"
proof -
  let ?neg = "map (map uminus) cm"
  have mat: "is_matrix n m ?neg" by (rule is_matrix_uminus [OF assms(4)])
  from assms(1) [unfolded lsa_contract_def] assms(2,3) mat
  have c: "full_assignment n m (lsa ?neg)"
    and least: "\<And>qs. full_assignment n m qs \<Longrightarrow> total ?neg (lsa ?neg) \<le> total ?neg qs"
    by blast+
  show "full_assignment n m (lsa ?neg)" by (rule c)
  assume q: "full_assignment n m qs"
  have "total ?neg (lsa ?neg) = - total cm (lsa ?neg)"
    using c by (intro total_uminus [OF assms(4)]) (simp add: full_assignment_def)
  moreover have "total ?neg qs = - total cm qs"
    using q by (intro total_uminus [OF assms(4)]) (simp add: full_assignment_def)
  ultimately show "total cm qs \<le> total cm (lsa ?neg)" using least [OF q] by simp
qed

lemma one_to_one_length:
  assumes "one_to_one n m ps"
  shows "length ps \<le> min n m"
proof -
  note r = one_to_one_rows [OF assms]
  have "card (set (map fst ps)) \<le> card {..<n}" by (rule card_mono [OF _ r(2)]) simp
  then have "length ps \<le> n" using r(1) distinct_card [of "map fst ps"] by simp
  moreover have "card (set (map snd ps)) \<le> card {..<m}" by (rule card_mono [OF _ r(4)]) simp
  then have "length ps \<le> m" using r(3) distinct_card [of "map snd ps"] by simp
  ultimately show ?thesis by simp
qed

lemma fresh_index:
  assumes "distinct xs" "set xs \<subseteq> {..<k}" "length xs < k"
  shows "\<exists>i < k. i \<notin> set xs"
proof (rule ccontr)
  assume "\<not> (\<exists>i < k. i \<notin> set xs)"
  then have "{..<k} \<subseteq> set xs" by auto
  then have "card {..<k} \<le> card (set xs)" by (intro card_mono) simp_all
  then show False using assms(1,3) by (simp add: distinct_card)
qed

lemma one_to_one_extend:
  assumes "one_to_one n m ps"
  shows "\<exists>es. full_assignment n m (es @ ps)"
  using assms
proof (induction "min n m - length ps" arbitrary: ps)
  case 0
  then have "length ps = min n m" using one_to_one_length [OF 0(2)] by simp
  then have "full_assignment n m ([] @ ps)" using 0(2) by (simp add: full_assignment_def)
  then show ?case by blast
next
  case (Suc d)
  note r = one_to_one_rows [OF Suc(3)]
  have "length (map fst ps) < n" "length (map snd ps) < m" using Suc(2) by simp_all
  from fresh_index [OF r(1) r(2) this(1)] fresh_index [OF r(3) r(4) this(2)]
  obtain i j where i: "i < n" "i \<notin> set (map fst ps)" and j: "j < m" "j \<notin> set (map snd ps)"
    by blast
  have o: "one_to_one n m ((i, j) # ps)"
    by (rule one_to_oneI) (use r i j in simp_all)
  have "d = min n m - length ((i, j) # ps)" using Suc(2) by simp
  from Suc(1) [OF this o] obtain es where "full_assignment n m (es @ (i, j) # ps)" by blast
  then have "full_assignment n m ((es @ [(i, j)]) @ ps)" by simp
  then show ?case by blast
qed

lemma total_append: "total cm (es @ ps) = total cm es + total cm ps"
  by (simp add: total_def)

lemma total_nonneg:
  "(\<And>ij. ij \<in> set es \<Longrightarrow> 0 \<le> cell cm ij) \<Longrightarrow> 0 \<le> total cm es"
  unfolding total_def by (induction es) simp_all

lemma complete_greatest_among_one_to_one:
  assumes nonneg: "\<And>i j. i < n \<Longrightarrow> j < m \<Longrightarrow> 0 \<le> cell cm (i, j)"
    and best: "\<And>qs. full_assignment n m qs \<Longrightarrow> total cm qs \<le> total cm ps"
    and q: "one_to_one n m qs"
  shows "total cm qs \<le> total cm ps"
proof -
  from one_to_one_extend [OF q] obtain es where c: "full_assignment n m (es @ qs)" by blast
  have "0 \<le> cell cm ij" if "ij \<in> set es" for ij
  proof -
    from c that have "fst ij < n" "snd ij < m"
      by (auto simp: full_assignment_def one_to_one_def list_all_iff)
    from nonneg [OF this] show ?thesis by simp
  qed
  then have "0 \<le> total cm es" by (rule total_nonneg)
  then have "total cm qs \<le> total cm (es @ qs)" by (simp add: total_append)
  also have "\<dots> \<le> total cm ps" by (rule best [OF c])
  finally show ?thesis .
qed

lemma matches_in_le: "matches_in cm t ps \<le> length ps"
  by (simp add: matches_in_def)

lemma uic_bb_f1_score_value:
  assumes "full_assignment (length A) (length B) (lsa (map (map uminus) (thresholded f t A B)))"
    and "A \<noteq> []" "B \<noteq> []"
  shows "uic_bb_f1_score lsa A B (\<lambda>x y. Inr (f x y)) t =
         Inr (f1_of_matches
                (matches_in (thresholded f t A B) t (lsa (map (map uminus) (thresholded f t A B))))
                (length A) (length B))"
proof -
  let ?cm = "thresholded f t A B"
  let ?ps = "lsa (map (map uminus) ?cm)"
  let ?k = "matches_in ?cm t ?ps"
  have unf: "uic_bb_f1_score lsa A B (\<lambda>x y. Inr (f x y)) t =
      (if ?k = 0 then Inr 0
       else ebind (py_div (1 * real ?k) (real (length A))) (\<lambda>precision.
            ebind (py_div (1 * real ?k) (real (length B))) (\<lambda>recall.
            py_div (2 * precision * recall) (precision + recall))))"
    using assms(2,3)
    by (simp add: uic_bb_f1_score_def cost_matrix_thresholded Let_def matches_in_def filter_map comp_def)
  show ?thesis
  proof (cases "?k = 0")
    case True
    then show ?thesis by (simp add: unf f1_of_matches_def)
  next
    case False
    have "?k \<le> length ?ps" by (rule matches_in_le)
    also have "\<dots> = min (length A) (length B)" using assms(1) by (simp add: full_assignment_def)
    finally have le: "?k \<le> length A" "?k \<le> length B" by simp_all
    from False have "0 < ?k" by simp
    from harmonic_mean_defined [OF this le] False
    show ?thesis by (simp add: unf f1_of_matches_def Let_def)
  qed
qed

lemma thresholded_nonneg:
  assumes "0 \<le> t" "i < length A" "j < length B"
  shows "0 \<le> cell (thresholded f t A B) (i, j)"
  using assms by (simp add: cell_thresholded)

text \<open>
  Claim C2, as amended. Let the solver meet its contract and let both lists be non-empty.
  Then the result of \<open>uic_bb_f1_score\<close> is \<open>2PR/(P+R)\<close> with \<open>P = k/|A|\<close> and \<open>R = k/|B|\<close> (0
  when \<open>k = 0\<close>), where \<open>k\<close> is the number of pairs that reach the threshold in a one-to-one
  assignment of \<open>min |A| |B|\<close> pairs whose total of thresholded scores is greatest among all
  such assignments. When the threshold is not negative, that assignment is also greatest
  among all one-to-one assignments, of any number of pairs.
\<close>

theorem assignment_f1_optimal:
  assumes "lsa_contract lsa" "A \<noteq> []" "B \<noteq> []"
  shows "assignment_f1_claim full_assignment lsa A B f t \<and>
         (0 \<le> t \<longrightarrow> assignment_f1_claim one_to_one lsa A B f t)"
proof -
  let ?n = "length A" and ?m = "length B"
  let ?cm = "thresholded f t A B"
  let ?ps = "lsa (map (map uminus) ?cm)"
  have n: "0 < ?n" and m: "0 < ?m" using assms(2,3) by simp_all
  note s = solver_greatest_total [OF assms(1) n m is_matrix_thresholded [of A B f t]]
  note v = uic_bb_f1_score_value [where lsa = lsa and f = f and t = t and A = A and B = B,
      OF s(1) assms(2,3)]
  have first: "assignment_f1_claim full_assignment lsa A B f t"
    unfolding assignment_f1_claim_def Let_def using s v by blast
  have second: "assignment_f1_claim one_to_one lsa A B f t" if t: "0 \<le> t"
  proof -
    have o: "one_to_one ?n ?m ?ps" using s(1) by (simp add: full_assignment_def)
    have "total ?cm qs \<le> total ?cm ?ps" if "one_to_one ?n ?m qs" for qs
      by (rule complete_greatest_among_one_to_one [OF thresholded_nonneg [OF t] s(2) that])
    with o v show ?thesis
      unfolding assignment_f1_claim_def Let_def by blast
  qed
  from first second show ?thesis by blast
qed

theorem assignment_f1_optimal_witness:
  "lsa_contract lsa_search \<and>
   assignment_f1_claim full_assignment lsa_search [1 :: nat, 2] [2 :: nat] equality_score (1 / 2) \<and>
   assignment_f1_claim one_to_one lsa_search [1 :: nat, 2] [2 :: nat] equality_score (1 / 2)"
  using assignment_f1_optimal [OF lsa_search_meets_contract,
      of "[1 :: nat, 2]" "[2 :: nat]" equality_score "1 / 2"]
    lsa_search_meets_contract
  by simp

lemma minus_one_result:
  "uic_bb_f1_score lsa_search [()] [()] (\<lambda>x y. Inr (minus_one_score x y)) (- 2) = Inr 1"
  by (simp add: uic_bb_f1_score_def cost_matrix_def minus_one_score_def lsa_search_1x1
      cell_def py_div_def)

lemma pure_score_eq: "pure_score f = (\<lambda>x y. Inr (f x y))"
  by (intro ext) (simp add: pure_score_def)

text \<open>
  Claim C2 as stated, for every threshold and over all one-to-one assignments, fails for a
  negative threshold. One element on each side, score \<open>-1\<close>, threshold \<open>-2\<close>: the only
  cell of the matrix is \<open>-1\<close>; the solver has to pair the two elements, the pair reaches
  the threshold and the result is 1. Among all one-to-one assignments the empty one has
  the greatest total, 0, and no pair, so the claim gives 0.
\<close>

theorem assignment_f1_negative_threshold:
  "lsa_contract lsa_search \<and>
   uic_bb_f1_score lsa_search [()] [()] (pure_score minus_one_score) (- 2) = Inr 1 \<and>
   \<not> assignment_f1_claim one_to_one lsa_search [()] [()] minus_one_score (- 2)"
proof -
  let ?cm = "thresholded minus_one_score (- 2) [()] [()]"
  have cm: "?cm = [[- 1]]" by (simp add: thresholded_def minus_one_score_def)
  have "\<not> assignment_f1_claim one_to_one lsa_search [()] [()] minus_one_score (- 2)"
  proof
    assume "assignment_f1_claim one_to_one lsa_search [()] [()] minus_one_score (- 2)"
    then obtain ps where o: "one_to_one 1 1 ps"
      and best: "\<And>qs. one_to_one 1 1 qs \<Longrightarrow> total ?cm qs \<le> total ?cm ps"
      and res: "uic_bb_f1_score lsa_search [()] [()] (\<lambda>x y. Inr (minus_one_score x y)) (- 2)
                = Inr (f1_of_matches (matches_in ?cm (- 2) ps) 1 1)"
      unfolding assignment_f1_claim_def Let_def by auto
    have "one_to_one 1 1 []" by (simp add: one_to_one_def)
    from best [OF this] have nonneg: "0 \<le> total ?cm ps" by (simp add: total_def)
    show False
    proof (cases ps)
      case Nil
      then have "f1_of_matches (matches_in ?cm (- 2) ps) 1 1 = 0"
        by (simp add: matches_in_def f1_of_matches_def)
      with res minus_one_result show False by simp
    next
      case (Cons ij rest)
      from one_to_one_length [OF o] Cons have rest: "rest = []" by simp
      from o Cons have "fst ij = 0" "snd ij = 0"
        by (simp_all add: one_to_one_def)
      then have "total ?cm ps = - 1" using Cons rest by (simp add: total_def cell_def cm)
      with nonneg show False by simp
    qed
  qed
  with lsa_search_meets_contract minus_one_result show ?thesis
    by (simp add: pure_score_eq)
qed

section \<open>Assignment F1 with equality as the score\<close>

lemma distinct_sub_mset:
  assumes "distinct xs" "set xs \<subseteq> set ys"
  shows "mset xs \<subseteq># mset ys"
proof (rule mset_subset_eqI)
  fix a
  show "count (mset xs) a \<le> count (mset ys) a"
  proof (cases "a \<in> set xs")
    case True
    then have "count (mset xs) a = 1" using assms(1) by (simp add: distinct_count_atmost_1)
    moreover have "a \<in># mset ys" using True assms(2) by auto
    then have "1 \<le> count (mset ys) a" by (simp add: Suc_le_eq)
    ultimately show ?thesis by simp
  next
    case False
    then show ?thesis by (simp add: count_mset count_list_0_iff)
  qed
qed

lemma selected_sub_mset:
  assumes "distinct is" "set is \<subseteq> {..<length xs}"
  shows "mset (map (nth xs) is) \<subseteq># mset xs"
proof -
  have "mset is \<subseteq># mset [0..<length xs]"
    by (rule distinct_sub_mset [OF assms(1)]) (use assms(2) in auto)
  then have "image_mset (nth xs) (mset is) \<subseteq># image_mset (nth xs) (mset [0..<length xs])"
    by (rule image_mset_subseteq_mono)
  moreover have "image_mset (nth xs) (mset [0..<length xs]) = mset xs"
    using map_nth [of xs] by (metis mset_map)
  ultimately show ?thesis by simp
qed

lemma equal_pairs_bound:
  assumes "one_to_one (length A) (length B) ps"
  shows "length (filter (\<lambda>ij. A ! fst ij = B ! snd ij) ps) \<le> num_same A B"
proof -
  define M where "M = filter (\<lambda>ij. A ! fst ij = B ! snd ij) ps"
  note r = one_to_one_rows [OF assms]
  have df: "distinct (map fst M)" and ds: "distinct (map snd M)"
    unfolding M_def using r(1,3) by (simp_all add: distinct_map_filter)
  have sf: "set (map fst M) \<subseteq> {..<length A}" and ss: "set (map snd M) \<subseteq> {..<length B}"
    unfolding M_def using r(2,4) by auto
  have "map (\<lambda>ij. A ! fst ij) M = map (\<lambda>ij. B ! snd ij) M"
    unfolding M_def by (rule map_cong) simp_all
  then have eq: "map (nth A) (map fst M) = map (nth B) (map snd M)" by (simp add: comp_def)
  have "mset (map (nth A) (map fst M)) \<subseteq># mset A"
    by (rule selected_sub_mset [OF df sf])
  moreover have "mset (map (nth A) (map fst M)) \<subseteq># mset B"
    unfolding eq by (rule selected_sub_mset [OF ds ss])
  ultimately have "mset (map (nth A) (map fst M)) \<subseteq># mset A \<inter># mset B" by simp
  from size_mset_mono [OF this] have "length M \<le> size (mset A \<inter># mset B)" by simp
  then show ?thesis by (simp add: M_def num_same_mset)
qed

lemma matching_exists:
  assumes "distinct rs" "distinct cs"
  shows "\<exists>ps. distinct (map fst ps) \<and> set (map fst ps) \<subseteq> set rs \<and>
              distinct (map snd ps) \<and> set (map snd ps) \<subseteq> set cs \<and>
              (\<forall>ij \<in> set ps. A ! fst ij = B ! snd ij) \<and>
              length ps = size (mset (map (nth A) rs) \<inter># mset (map (nth B) cs))"
  using assms
proof (induction rs arbitrary: cs)
  case Nil
  show ?case by (rule exI [of _ "[]"]) simp
next
  case (Cons r rs)
  from Cons.prems have drs: "distinct rs" and r: "r \<notin> set rs" by simp_all
  show ?case
  proof (cases "A ! r \<in> set (map (nth B) cs)")
    case True
    then obtain c where c: "c \<in> set cs" "B ! c = A ! r" by auto
    have dcs: "distinct (remove1 c cs)" using Cons.prems(2) by simp
    from Cons.IH [OF drs dcs] obtain ps where ps:
      "distinct (map fst ps)" "set (map fst ps) \<subseteq> set rs"
      "distinct (map snd ps)" "set (map snd ps) \<subseteq> set (remove1 c cs)"
      "\<forall>ij \<in> set ps. A ! fst ij = B ! snd ij"
      "length ps = size (mset (map (nth A) rs) \<inter># mset (map (nth B) (remove1 c cs)))"
      by blast
    have rem: "set (remove1 c cs) = set cs - {c}" using Cons.prems(2) by simp
    have "mset cs = mset (c # remove1 c cs)" using c(1) by simp
    then have "mset (map (nth B) cs) = mset (map (nth B) (c # remove1 c cs))"
      by (metis mset_map)
    then have "mset (map (nth B) cs) = add_mset (A ! r) (mset (map (nth B) (remove1 c cs)))"
      using c(2) by simp
    then have size: "size (mset (map (nth A) (r # rs)) \<inter># mset (map (nth B) cs)) = Suc (length ps)"
      using ps(6) by simp
    let ?ps = "(r, c) # ps"
    have "distinct (map fst ?ps)" using ps(1,2) r by auto
    moreover have "set (map fst ?ps) \<subseteq> set (r # rs)" using ps(2) by auto
    moreover have "distinct (map snd ?ps)" using ps(3,4) rem by auto
    moreover have "set (map snd ?ps) \<subseteq> set cs" using ps(4) rem c(1) by auto
    moreover have "\<forall>ij \<in> set ?ps. A ! fst ij = B ! snd ij" using ps(5) c(2) by simp
    moreover have "length ?ps = size (mset (map (nth A) (r # rs)) \<inter># mset (map (nth B) cs))"
      using size by simp
    ultimately show ?thesis by blast
  next
    case False
    from Cons.IH [OF drs Cons.prems(2)] obtain ps where ps:
      "distinct (map fst ps)" "set (map fst ps) \<subseteq> set rs"
      "distinct (map snd ps)" "set (map snd ps) \<subseteq> set cs"
      "\<forall>ij \<in> set ps. A ! fst ij = B ! snd ij"
      "length ps = size (mset (map (nth A) rs) \<inter># mset (map (nth B) cs))"
      by blast
    have "\<not> A ! r \<in># mset (map (nth B) cs)" using False by simp
    then have "mset (map (nth A) (r # rs)) \<inter># mset (map (nth B) cs)
        = mset (map (nth A) rs) \<inter># mset (map (nth B) cs)"
      using inter_add_left1 [of "A ! r" "mset (map (nth B) cs)" "mset (map (nth A) rs)"] by simp
    with ps(6) have "length ps = size (mset (map (nth A) (r # rs)) \<inter># mset (map (nth B) cs))"
      by simp
    moreover have "set (map fst ps) \<subseteq> set (r # rs)" using ps(2) by auto
    ultimately show ?thesis using ps(1,3,4,5) by blast
  qed
qed

lemma equal_pairs_exist:
  "\<exists>ps. one_to_one (length A) (length B) ps \<and> (\<forall>ij \<in> set ps. A ! fst ij = B ! snd ij) \<and>
        length ps = num_same A B"
proof -
  from matching_exists [of "[0..<length A]" "[0..<length B]" A B] obtain ps where ps:
    "distinct (map fst ps)" "set (map fst ps) \<subseteq> set [0..<length A]"
    "distinct (map snd ps)" "set (map snd ps) \<subseteq> set [0..<length B]"
    "\<forall>ij \<in> set ps. A ! fst ij = B ! snd ij"
    "length ps = size (mset (map (nth A) [0..<length A]) \<inter># mset (map (nth B) [0..<length B]))"
    by auto
  have "one_to_one (length A) (length B) ps"
    by (rule one_to_oneI [OF ps(1) ps(3)]) (use ps(2,4) in auto)
  moreover have "length ps = num_same A B"
    using ps(6) by (simp only: map_nth num_same_mset)
  ultimately show ?thesis using ps(5) by blast
qed

lemma cell_equality:
  assumes "0 < t" "t \<le> 1" "i < length A" "j < length B"
  shows "cell (thresholded equality_score t A B) (i, j) = (if A ! i = B ! j then 1 else 0)"
  using assms by (simp add: cell_thresholded equality_score_def)

lemma equality_counts:
  assumes "0 < t" "t \<le> 1"
    and "\<And>ij. ij \<in> set ps \<Longrightarrow> fst ij < length A \<and> snd ij < length B"
  shows "total (thresholded equality_score t A B) ps
           = real (length (filter (\<lambda>ij. A ! fst ij = B ! snd ij) ps))"
    and "matches_in (thresholded equality_score t A B) t ps
           = length (filter (\<lambda>ij. A ! fst ij = B ! snd ij) ps)"
proof -
  have c: "cell (thresholded equality_score t A B) ij = (if A ! fst ij = B ! snd ij then 1 else 0)"
    if "ij \<in> set ps" for ij
    using cell_equality [OF assms(1,2), of "fst ij" A "snd ij" B] assms(3) [OF that] by simp
  have "map (cell (thresholded equality_score t A B)) ps
      = map (\<lambda>ij. if A ! fst ij = B ! snd ij then 1 else 0) ps"
    by (rule map_cong) (simp_all add: c)
  then have "total (thresholded equality_score t A B) ps
      = sum_list (map (\<lambda>ij. if A ! fst ij = B ! snd ij then 1 else 0) ps)"
    unfolding total_def by (rule arg_cong)
  also have "\<dots> = real (length (filter (\<lambda>ij. A ! fst ij = B ! snd ij) ps))"
    by (induction ps) simp_all
  finally show "total (thresholded equality_score t A B) ps
      = real (length (filter (\<lambda>ij. A ! fst ij = B ! snd ij) ps))" .
  have "filter (\<lambda>ij. cell (thresholded equality_score t A B) ij \<ge> t) ps
      = filter (\<lambda>ij. A ! fst ij = B ! snd ij) ps"
    by (rule filter_cong) (use assms(1,2) in \<open>auto simp: c\<close>)
  then show "matches_in (thresholded equality_score t A B) t ps
      = length (filter (\<lambda>ij. A ! fst ij = B ! snd ij) ps)"
    by (simp add: matches_in_def)
qed

lemma one_to_one_in_range:
  "one_to_one n m ps \<Longrightarrow> ij \<in> set ps \<Longrightarrow> fst ij < n \<and> snd ij < m"
  by (simp add: one_to_one_def list_all_iff)

lemma equality_matches:
  assumes "lsa_contract lsa" "A \<noteq> []" "B \<noteq> []" "0 < t" "t \<le> 1"
  shows "matches_in (thresholded equality_score t A B) t
           (lsa (map (map uminus) (thresholded equality_score t A B))) = num_same A B"
proof -
  let ?n = "length A" and ?m = "length B"
  let ?cm = "thresholded equality_score t A B"
  let ?ps = "lsa (map (map uminus) ?cm)"
  let ?same = "\<lambda>ij. A ! fst ij = B ! snd ij"
  have n: "0 < ?n" and m: "0 < ?m" using assms(2,3) by simp_all
  note s = solver_greatest_total [OF assms(1) n m is_matrix_thresholded [of A B equality_score t]]
  have o: "one_to_one ?n ?m ?ps" using s(1) by (simp add: full_assignment_def)
  note e = equality_counts [OF assms(4,5) one_to_one_in_range [OF o]]
  have upper: "length (filter ?same ?ps) \<le> num_same A B"
    by (rule equal_pairs_bound [OF o])
  from equal_pairs_exist [of A B] obtain qs where qs: "one_to_one ?n ?m qs"
    "\<forall>ij \<in> set qs. ?same ij" "length qs = num_same A B"
    by blast
  have "filter ?same qs = qs" using qs(2) by (simp add: filter_id_conv)
  then have tq: "total ?cm qs = real (num_same A B)"
    using equality_counts(1) [OF assms(4,5) one_to_one_in_range [OF qs(1)]] qs(3) by simp
  have t0: "0 \<le> t" using assms(4) by simp
  have "total ?cm qs \<le> total ?cm ?ps"
    by (rule complete_greatest_among_one_to_one [OF thresholded_nonneg [OF t0] s(2) qs(1)])
  then have "num_same A B \<le> length (filter ?same ?ps)"
    using tq e(1) by simp
  with upper show ?thesis using e(2) by simp
qed

lemma assignment_f1_equality_value:
  assumes "lsa_contract lsa" "A \<noteq> []" "B \<noteq> []" "0 < t" "t \<le> 1"
  shows "uic_bb_f1_score lsa A B (\<lambda>x y. Inr (if x = y then 1 else 0)) t
           = Inr (f1_of_matches (num_same A B) (length A) (length B))"
proof -
  have n: "0 < length A" and m: "0 < length B" using assms(2,3) by simp_all
  note s = solver_greatest_total [OF assms(1) n m is_matrix_thresholded [of A B equality_score t]]
  have "uic_bb_f1_score lsa A B (\<lambda>x y. Inr (if x = y then 1 else 0)) t
      = uic_bb_f1_score lsa A B (\<lambda>x y. Inr (equality_score x y)) t"
    by (simp add: equality_score_def)
  also have "\<dots> = Inr (f1_of_matches (num_same A B) (length A) (length B))"
    using uic_bb_f1_score_value [where lsa = lsa and f = equality_score and t = t and A = A
        and B = B, OF s(1) assms(2,3)]
      equality_matches [OF assms]
    by simp
  finally show ?thesis .
qed

lemma f1_score_of_matches:
  "f1_score A B = Inr (f1_of_matches (num_same A B) (length A) (length B))"
  by (simp add: f1_score_value f1_of_matches_def Let_def)

text \<open>
  Claim C3. For non-empty lists and a threshold \<open>t\<close> with \<open>0 < t \<le> 1\<close>, the counter-based
  \<open>f1_score\<close> returns what \<open>uic_bb_f1_score\<close> returns with the score 1 for equal elements and
  0 for different ones, whichever minimum-cost assignment the solver chooses: every such
  assignment pairs as many equal elements as the two counters have in common.
\<close>

theorem f1_score_is_assignment_f1:
  assumes "lsa_contract lsa" "A \<noteq> []" "B \<noteq> []" "0 < t" "t \<le> 1"
  shows "f1_score A B = uic_bb_f1_score lsa A B (\<lambda>x y. Inr (if x = y then 1 else 0)) t"
proof -
  have "f1_score A B = Inr (f1_of_matches (num_same A B) (length A) (length B))"
    by (rule f1_score_of_matches)
  also have "\<dots> = uic_bb_f1_score lsa A B (\<lambda>x y. Inr (if x = y then 1 else 0)) t"
    by (rule assignment_f1_equality_value [OF assms, symmetric])
  finally show ?thesis .
qed

lemma f1_score_example: "f1_score [''a'', ''b''] [''b'', ''c''] = Inr (1 / 2)"
proof -
  have "num_same [''a'', ''b''] [''b'', ''c''] = 1"
    by (simp add: num_same_def counter_and_def counter_def counter_get_def)
  then show ?thesis by (simp add: f1_score_value)
qed

theorem f1_score_is_assignment_f1_witness:
  "lsa_contract lsa_search \<and>
   uic_bb_f1_score lsa_search [''a'', ''b''] [''b'', ''c''] (\<lambda>x y. Inr (if x = y then 1 else 0)) (1 / 2)
     = Inr (1 / 2) \<and>
   f1_score [''a'', ''b''] [''b'', ''c''] = Inr (1 / 2)"
  using f1_score_is_assignment_f1 [OF lsa_search_meets_contract,
      of "[''a'', ''b'']" "[''b'', ''c'']" "1 / 2"]
    lsa_search_meets_contract f1_score_example
  by simp

lemma emap_cong: "(\<And>x. x \<in> set xs \<Longrightarrow> f x = g x) \<Longrightarrow> emap f xs = emap g xs"
  by (induction xs) simp_all

text \<open>
  In \<open>sqa_uic_metrics\<close> the token F1 is only ever applied to two non-empty lists, so there it
  can be replaced by the assignment F1 with equality as the score, at any threshold in
  \<open>(0, 1]\<close>.
\<close>

lemma sqa_uic_metrics_assignment:
  assumes "lsa_contract lsa" "0 < t" "t \<le> 1"
  shows "sqa_uic_metrics prediction ground_truths =
     (if prediction = [] then
        (if [] \<in> set ground_truths then Inr (1, 1) else Inr (0, 0))
      else
        let ground_truths1 = filter (\<lambda>gt. gt \<noteq> []) ground_truths
        in if ground_truths1 = [] then Inr (0, 0)
           else
             let exact_match = (if prediction \<in> set ground_truths1 then 1 else 0)
             in ebind (emap (\<lambda>gt. uic_bb_f1_score lsa prediction gt
                              (\<lambda>x y. Inr (if x = y then 1 else 0)) t) ground_truths1) (\<lambda>f1s.
                ebind (py_max f1s) (\<lambda>f1.
                Inr (exact_match, f1))))"
proof (cases "prediction = []")
  case True
  then show ?thesis by (simp add: sqa_uic_metrics_def)
next
  case False
  have "emap (\<lambda>gt. f1_score prediction gt) (filter (\<lambda>gt. gt \<noteq> []) ground_truths)
      = emap (\<lambda>gt. uic_bb_f1_score lsa prediction gt (\<lambda>x y. Inr (if x = y then 1 else 0)) t)
          (filter (\<lambda>gt. gt \<noteq> []) ground_truths)"
  proof (rule emap_cong)
    fix gt assume "gt \<in> set (filter (\<lambda>gt. gt \<noteq> []) ground_truths)"
    then have "gt \<noteq> []" by simp
    from assignment_f1_equality_value [OF assms(1) False this assms(2,3)]
    show "f1_score prediction gt
        = uic_bb_f1_score lsa prediction gt (\<lambda>x y. Inr (if x = y then 1 else 0)) t"
      by (simp add: f1_score_of_matches)
  qed
  then show ?thesis by (simp add: sqa_uic_metrics_def Let_def)
qed

section \<open>The normaliser meets its description\<close>

lemma replace_punctuation_filter: "replace_punctuation s [] = spec_strip_punctuation s"
  by (induction s) (simp_all add: replace_punctuation_def spec_strip_punctuation_def)

lemma word_chars: "is_word_char CHR ''a''" "is_word_char CHR ''n''" "is_word_char CHR ''t''"
  "is_word_char CHR ''h''" "is_word_char CHR ''e''"
  by (simp_all add: is_word_char_def ord_def)

text \<open>Outside a word nothing matches.\<close>

lemma sub_articles_other:
  assumes "\<not> is_word_char c"
  shows "sub_articles prev (c # cs) = c # sub_articles False cs"
proof -
  have "c \<noteq> CHR ''a''" "c \<noteq> CHR ''t''" using assms word_chars by auto
  then have "match_article prev (c # cs) = None"
    by (simp add: match_article_def)
  then show ?thesis using assms by simp
qed

text \<open>Inside a word nothing matches.\<close>

lemma sub_articles_inside:
  assumes "\<forall>c \<in> set w. is_word_char c"
  shows "sub_articles True (w @ r) = w @ sub_articles True r"
  using assms
proof (induction w)
  case Nil
  then show ?case by simp
next
  case (Cons c w)
  then have "match_article True (c # w @ r) = None" by (simp add: match_article_def)
  with Cons show ?case by simp
qed

text \<open>At the start of a word the pattern matches exactly when the word is an article.\<close>

lemma word_boundary_end: "word_end r \<Longrightarrow> word_boundary True r"
  by (cases r) (simp_all add: word_end_def)

lemma word_boundary_inside:
  "w \<noteq> [] \<Longrightarrow> \<forall>c \<in> set w. is_word_char c \<Longrightarrow> \<not> word_boundary True (w @ r)"
  by (cases w) simp_all

lemma match_article_word:
  assumes w: "w \<noteq> []" "\<forall>c \<in> set w. is_word_char c" and r: "word_end r"
  shows "match_article False (w @ r) =
     (if w = ''a'' then Some 1 else if w = ''an'' then Some 2 else if w = ''the'' then Some 3
      else None)"
proof -
  obtain c1 w1 where w1: "w = c1 # w1" using w(1) by (cases w) auto
  have b0: "word_boundary False (w @ r)" using w1 w(2) by simp
  have e: "word_boundary True r" by (rule word_boundary_end [OF r])
  show ?thesis
  proof (cases w1)
    case Nil
    then have "w = [c1]" using w1 by simp
    moreover have "\<not> (take 2 ([c1] @ r) = ''an'')" "\<not> (take 3 ([c1] @ r) = ''the'')"
      using r word_chars by (cases r; auto simp: word_end_def)+
    ultimately show ?thesis
      using e by (auto simp: match_article_def word_chars)
  next
    case (Cons c2 w2)
    note c2 = this
    have in1: "\<not> word_boundary True (w1 @ r)"
      using w(2) w1 c2 by simp
    show ?thesis
    proof (cases w2)
      case Nil
      then have "w = [c1, c2]" using w1 c2 by simp
      moreover have "\<not> (take 3 ([c1, c2] @ r) = ''the'')"
        using r word_chars by (cases r; auto simp: word_end_def)
      ultimately show ?thesis
        using e w(2) by (auto simp: match_article_def)
    next
      case (Cons c3 w3)
      note c3 = this
      have in2: "\<not> word_boundary True (w2 @ r)" using w(2) w1 c2 c3 by simp
      show ?thesis
      proof (cases w3)
        case Nil
        then have "w = [c1, c2, c3]" using w1 c2 c3 by simp
        then show ?thesis using e w(2) by (auto simp: match_article_def)
      next
        case (Cons c4 w4)
        then have "w = c1 # c2 # c3 # c4 # w4" using w1 c2 c3 by simp
        then show ?thesis using w(2) by (auto simp: match_article_def)
      qed
    qed
  qed
qed

lemma sub_articles_word:
  assumes w: "w \<noteq> []" "\<forall>c \<in> set w. is_word_char c" and r: "word_end r"
  shows "sub_articles False (w @ r) = spec_word w @ sub_articles True r"
proof -
  obtain c w' where cw: "w = c # w'" using w(1) by (cases w) auto
  note m = match_article_word [OF w r]
  consider "w = ''a''" | "w = ''an''" | "w = ''the''" | "w \<notin> set articles"
    by (auto simp: articles_def)
  then show ?thesis
  proof cases
    case 1
    then show ?thesis using m by (simp add: spec_word_def articles_def)
  next
    case 2
    then show ?thesis using m by (simp add: spec_word_def articles_def)
  next
    case 3
    then show ?thesis using m by (simp add: spec_word_def articles_def)
  next
    case 4
    then have "match_article False (c # w' @ r) = None"
      using m cw by (auto simp: articles_def)
    moreover have "is_word_char c" "\<forall>c \<in> set w'. is_word_char c" using w(2) cw by simp_all
    ultimately have "sub_articles False (w @ r) = c # w' @ sub_articles True r"
      using cw sub_articles_inside [of w' r] by simp
    then show ?thesis using 4 cw by (simp add: spec_word_def)
  qed
qed

lemma spec_words_from_word:
  "\<forall>c \<in> set w. is_word_char c \<Longrightarrow> spec_words_from cur (w @ r) = spec_words_from (cur @ w) r"
  by (induction w arbitrary: cur) simp_all

lemma spec_word_Nil [simp]: "spec_word [] = []"
  by (simp add: spec_word_def articles_def)

lemma sub_articles_spec: "sub_articles False s = spec_words_from [] s"
proof (induction s rule: length_induct)
  case (1 s)
  define w where "w = takeWhile is_word_char s"
  define r where "r = dropWhile is_word_char s"
  have s: "s = w @ r" by (simp add: w_def r_def)
  have allw: "\<forall>c \<in> set w. is_word_char c" unfolding w_def by (auto dest: set_takeWhileD)
  have wend: "word_end r"
  proof (cases r)
    case Nil
    then show ?thesis by (simp add: word_end_def)
  next
    case (Cons c r')
    then have "dropWhile is_word_char s \<noteq> []" by (simp add: r_def)
    then have "\<not> is_word_char (hd (dropWhile is_word_char s))" by (rule hd_dropWhile)
    then show ?thesis using Cons by (simp add: word_end_def r_def)
  qed
  have rest: "sub_articles True r = (case r of [] \<Rightarrow> [] | c # r' \<Rightarrow> c # sub_articles False r')"
    using wend by (cases r) (simp_all add: word_end_def sub_articles_other del: sub_articles.simps(2))
  show ?case
  proof (cases r)
    case Nil
    show ?thesis
    proof (cases "w = []")
      case True
      then show ?thesis using s Nil by simp
    next
      case False
      from sub_articles_word [OF False allw wend] spec_words_from_word [OF allw, of "[]" r]
      show ?thesis using s Nil by simp
    qed
  next
    case (Cons c r')
    have "length r' < length s" using s Cons by simp
    with 1 have ih: "sub_articles False r' = spec_words_from [] r'" by blast
    have nw: "\<not> is_word_char c" using wend Cons by (simp add: word_end_def)
    show ?thesis
    proof (cases "w = []")
      case True
      then show ?thesis using s Cons nw ih by (simp add: sub_articles_other del: sub_articles.simps(2))
    next
      case False
      from sub_articles_word [OF False allw wend] spec_words_from_word [OF allw, of "[]" r]
      show ?thesis using s Cons nw ih rest by (simp del: sub_articles.simps(2))
    qed
  qed
qed

lemma remove_articles_spec: "remove_articles s = spec_remove_articles s"
  by (simp add: remove_articles_def spec_remove_articles_def sub_articles_spec)

lemma spec_trim_rstrip: "spec_trim s = rstrip (dropWhile isspace s)"
  by (simp add: spec_trim_def rstrip_def)

lemma rstrip_Nil [simp]: "rstrip [] = []"
  by (simp add: rstrip_def)

lemma rstrip_empty_iff: "rstrip s = [] \<longleftrightarrow> (\<forall>c \<in> set s. isspace c)"
  by (simp add: rstrip_def)

lemma rstrip_Cons: "rstrip (c # s) = (if isspace c \<and> rstrip s = [] then [] else c # rstrip s)"
proof (cases "\<forall>x \<in> set s. isspace x")
  case True
  then have "dropWhile isspace (rev s @ [c]) = dropWhile isspace [c]"
    by (intro dropWhile_append2) simp
  moreover have "rstrip s = []" using True by (simp add: rstrip_empty_iff)
  ultimately show ?thesis by (simp add: rstrip_def)
next
  case False
  then obtain x where "x \<in> set (rev s)" "\<not> isspace x" by auto
  then have "dropWhile isspace (rev s @ [c]) = dropWhile isspace (rev s) @ [c]"
    by (rule dropWhile_append1)
  moreover have "rstrip s \<noteq> []" using False by (simp add: rstrip_empty_iff)
  ultimately show ?thesis by (simp add: rstrip_def)
qed

lemma join_Cons: "join sep (w # ws) = w @ (if ws = [] then [] else sep @ join sep ws)"
  by (cases ws) simp_all

lemma split_from_words: "w \<in> set (split_from cur s) \<Longrightarrow> w \<noteq> []"
  by (induction s arbitrary: cur) (auto split: if_splits)

lemma join_empty_iff:
  assumes "\<And>w. w \<in> set ws \<Longrightarrow> w \<noteq> []"
  shows "join sep ws = [] \<longleftrightarrow> ws = []"
  using assms by (cases ws) (auto simp: join_Cons)

lemma space_is_space: "isspace CHR '' ''"
  by (simp add: isspace_def ord_def)

lemma white_space_fix_scan:
  "(cur \<noteq> [] \<longrightarrow> join '' '' (split_from cur s) = cur @ rstrip (spec_collapse False s)) \<and>
   join '' '' (split_from [] s) = rstrip (spec_collapse True s)"
proof (induction s arbitrary: cur)
  case Nil
  show ?case by simp
next
  case (Cons c s)
  note ih_word = Cons.IH [THEN conjunct1, rule_format]
  note ih_gap = Cons.IH [of "[]", THEN conjunct2]
  show ?case
  proof (cases "isspace c")
    case True
    have e: "join '' '' (split_from [] s) = [] \<longleftrightarrow> split_from [] s = []"
      by (rule join_empty_iff) (rule split_from_words)
    have "join '' '' (cur # split_from [] s) = cur @ rstrip (CHR '' '' # spec_collapse True s)"
      using e ih_gap by (simp add: join_Cons rstrip_Cons space_is_space)
    then show ?thesis using True ih_gap by simp
  next
    case False
    have "join '' '' (split_from (cur @ [c]) s) = (cur @ [c]) @ rstrip (spec_collapse False s)"
      by (rule ih_word) simp
    moreover have "join '' '' (split_from ([] @ [c]) s) = ([] @ [c]) @ rstrip (spec_collapse False s)"
      by (rule ih_word) simp
    ultimately show ?thesis using False by (simp add: rstrip_Cons)
  qed
qed

lemma spec_collapse_True_head:
  "spec_collapse True s = [] \<or> \<not> isspace (hd (spec_collapse True s))"
  by (induction s) simp_all

lemma spec_collapse_lstrip: "dropWhile isspace (spec_collapse False s) = spec_collapse True s"
proof -
  have d: "dropWhile isspace (spec_collapse True s) = spec_collapse True s"
    using spec_collapse_True_head [of s] by (cases "spec_collapse True s") auto
  show ?thesis
  proof (cases s)
    case Nil
    then show ?thesis by simp
  next
    case (Cons c cs)
    show ?thesis
    proof (cases "isspace c")
      case True
      then have "spec_collapse False s = CHR '' '' # spec_collapse True s" using Cons by simp
      then show ?thesis using d by (simp add: space_is_space)
    next
      case False
      then have "spec_collapse False s = spec_collapse True s" using Cons by simp
      then show ?thesis using d by simp
    qed
  qed
qed

lemma white_space_fix_spec: "white_space_fix s = spec_trim (spec_collapse False s)"
  using white_space_fix_scan [of "[]" s]
  by (simp add: white_space_fix_def split_def spec_trim_rstrip spec_collapse_lstrip)

lemma normalize_squad_spec: "normalize_squad s = spec_normalize s"
  by (simp add: normalize_squad_def spec_normalize_def replace_punctuation_filter
      remove_articles_spec white_space_fix_spec)

lemma normalize_examples:
  "normalize_squad ''The Cat.'' = ''cat''" "normalize_squad ''cat'' = ''cat''"
  "normalize_squad ''a  b'' = ''b''" "normalize_squad ''the-the end'' = ''thethe end''"
  by code_simp+

text \<open>
  Claim C8. \<open>normalize_squad\<close> is the composition, in this order, of lower-casing, deleting
  the punctuation characters (nothing is put in their place), replacing each whole word
  \<^verbatim>\<open>a\<close>, \<^verbatim>\<open>an\<close>, \<^verbatim>\<open>the\<close> by one space, and collapsing runs of white space to one space
  with both ends trimmed. The regular-expression scan of the code and the join of the
  split are shown equal to the word-wise and run-wise descriptions. The two examples of the
  claim hold.
\<close>

theorem normalize_squad_steps:
  "normalize_squad s = spec_normalize s \<and>
   normalize_squad ''The Cat.'' = normalize_squad ''cat'' \<and>
   normalize_squad ''a  b'' = ''b''"
  using normalize_squad_spec [of s] normalize_examples(1,2,3) by simp

theorem normalize_squad_steps_witness:
  "spec_normalize ''the-the end'' = ''thethe end'' \<and> spec_normalize ''The Cat.'' = ''cat''"
  using normalize_squad_steps [of "''the-the end''"] normalize_squad_steps [of "''The Cat.''"]
    normalize_examples(1,4)
  by simp

section \<open>Properties of the SQA-UIC-BB metrics\<close>

lemma ui_elements_match_value:
  "\<exists>v. iou (fst e1) (fst e2) = Inr v \<and>
       ui_elements_match e1 e2 t = Inr (snd e1 = snd e2 \<and> t \<le> v)"
proof -
  obtain v where "iou (fst e1) (fst e2) = Inr v" using iou_total by blast
  then show ?thesis
    by (cases e1; cases e2) (simp add: ui_elements_match_def)
qed

lemma eall_pure: "(\<And>x. x \<in> set xs \<Longrightarrow> p x = Inr (P x)) \<Longrightarrow> eall p xs = Inr (list_all P xs)"
  by (induction xs) simp_all

lemma eany_pure: "(\<And>x. x \<in> set xs \<Longrightarrow> p x = Inr (P x)) \<Longrightarrow> eany p xs = Inr (list_ex P xs)"
  by (induction xs) simp_all

lemma ui_elements_match_agree:
  "ui_elements_match e1 e2 t = Inr (elements_agree t (e1, e2))"
  using ui_elements_match_value [of e1 e2 t]
  by (auto simp: elements_agree_def iou_at_least_def)

lemma uic_bb_exact_match_value:
  "uic_bb_exact_match xs ys t =
     Inr (length xs = length ys \<and> list_all (elements_agree t) (zip xs ys))"
proof (cases "length xs = length ys")
  case True
  have "eall (\<lambda>el. ui_elements_match (fst el) (snd el) t) (zip xs ys)
      = Inr (list_all (elements_agree t) (zip xs ys))"
    by (rule eall_pure) (simp add: ui_elements_match_agree)
  then show ?thesis using True by (simp add: uic_bb_exact_match_def)
next
  case False
  then show ?thesis by (simp add: uic_bb_exact_match_def)
qed

text \<open>
  The exact-match component of every result, for every supplied threshold \<open>t\<close>: with an
  empty prediction it tells whether some ground truth is empty; otherwise it tells whether
  some non-empty ground truth of the length of the prediction agrees with it position by
  position at the default threshold. The supplied threshold does not occur.
\<close>

lemma exact_match_component:
  assumes "sqa_uic_bb_metrics lsa prediction gts t = Inr (b, em, f)"
  shows "em = 1 \<longleftrightarrow>
     (if prediction = [] then [] \<in> set gts
      else list_ex (\<lambda>gt. gt \<noteq> [] \<and> length prediction = length gt \<and>
             list_all (elements_agree default_iou_threshold) (zip prediction gt)) gts)"
proof (cases "prediction = []")
  case True
  then show ?thesis using assms by (auto simp: sqa_uic_bb_metrics_def split: if_splits)
next
  case False
  define gs where "gs = filter (\<lambda>gt. gt \<noteq> []) gts"
  have any: "eany (\<lambda>gt. uic_bb_exact_match prediction gt default_iou_threshold) gs
      = Inr (list_ex (\<lambda>gt. length prediction = length gt \<and>
               list_all (elements_agree default_iou_threshold) (zip prediction gt)) gs)"
    by (rule eany_pure) (simp add: uic_bb_exact_match_value)
  have ex: "list_ex (\<lambda>gt. length prediction = length gt \<and>
               list_all (elements_agree default_iou_threshold) (zip prediction gt)) gs
      = list_ex (\<lambda>gt. gt \<noteq> [] \<and> length prediction = length gt \<and>
               list_all (elements_agree default_iou_threshold) (zip prediction gt)) gts"
    by (auto simp: gs_def list_ex_iff)
  show ?thesis
  proof (cases "gs = []")
    case True
    then have "em = 0" using assms False by (simp add: sqa_uic_bb_metrics_def gs_def)
    moreover have "\<not> list_ex (\<lambda>gt. gt \<noteq> [] \<and> length prediction = length gt \<and>
               list_all (elements_agree default_iou_threshold) (zip prediction gt)) gts"
      using True ex by simp
    ultimately show ?thesis using False by simp
  next
    case ne: False
    from assms False ne have "em = (if list_ex (\<lambda>gt. length prediction = length gt \<and>
               list_all (elements_agree default_iou_threshold) (zip prediction gt)) gs then 1 else 0)"
      unfolding sqa_uic_bb_metrics_def Let_def gs_def [symmetric] any
      by (auto simp: ebind_def split: sum.splits if_splits)
    then show ?thesis using False ex by simp
  qed
qed

lemma iou_example: "iou (0, 0, 2, 2) (0, 0, 2, 1) = Inr (1 / 2)"
  by (simp add: iou_def Let_def py_div_def b0_def b1_def b2_def b3_def)

text \<open>
  Claim C1 says that the exact-match component is evaluated at the threshold the caller
  supplies. The call of \<open>uic_bb_exact_match\<close> in \<open>sqa_uic_bb_metrics\<close> (line 106) passes no
  threshold, so the default 0.1 is used whatever the caller supplied. Here the only pair of
  boxes has the same content and an intersection over union of 1/2: at the supplied
  threshold 9/10 both F1 components are 0, as they should be, and the exact match is 1.
\<close>

theorem exact_match_ignores_threshold:
  "sqa_uic_bb_metrics lsa_search [((0, 0, 2, 2), ''btn'')] [[((0, 0, 2, 1), ''btn'')]] (9 / 10)
     = Inr (0, 1, 0) \<and>
   iou (0, 0, 2, 2) (0, 0, 2, 1) = Inr (1 / 2)"
  by (simp add: sqa_uic_bb_metrics_def uic_bb_f1_score_def cost_matrix_def iou_example
      lsa_search_1x1 cell_def uic_bb_exact_match_def ui_elements_match_def
      default_iou_threshold_def)

section \<open>Rounding to the nearest double\<close>

lemma pow2_pos [simp]: "0 < pow2 k"
  by (simp add: pow2_def)

lemma pow2_add: "pow2 (a + b) = pow2 a * pow2 b"
  by (simp add: pow2_def powr_add)

lemma pow2_0 [simp]: "pow2 0 = 1"
  by (simp add: pow2_def)

lemma pow2_nat: "pow2 (int n) = 2 ^ n"
  by (simp add: pow2_def powr_realpow)

lemma pow2_mono: "a \<le> b \<Longrightarrow> pow2 a \<le> pow2 b"
  by (simp add: pow2_def)

lemma pow2_strict_mono: "a < b \<Longrightarrow> pow2 a < pow2 b"
  by (simp add: pow2_def)

lemma pow2_diff: "pow2 (a - b) = pow2 a / pow2 b"
  by (simp add: pow2_def powr_diff)

lemma rne_int [simp]: "rne (of_int n) = n"
  by (simp add: rne_def)

lemma rne_bounds: "\<lfloor>q\<rfloor> \<le> rne q" "rne q \<le> \<lfloor>q\<rfloor> + 1"
  by (simp_all add: rne_def Let_def)

lemma rne_frac_zero: "q = of_int \<lfloor>q\<rfloor> \<Longrightarrow> rne q = \<lfloor>q\<rfloor>"
  by (simp add: rne_def Let_def)

lemma rne_mono:
  assumes "q \<le> r"
  shows "rne q \<le> rne r"
proof (cases "\<lfloor>q\<rfloor> = \<lfloor>r\<rfloor>")
  case True
  then show ?thesis using assms by (auto simp: rne_def Let_def)
next
  case False
  then have "\<lfloor>q\<rfloor> < \<lfloor>r\<rfloor>" using floor_mono [OF assms] by simp
  then have "\<lfloor>q\<rfloor> + 1 \<le> \<lfloor>r\<rfloor>" by simp
  with rne_bounds(2) [of q] rne_bounds(1) [of r] show ?thesis by linarith
qed

lemma rne_le_int: "q \<le> of_int n \<Longrightarrow> rne q \<le> n"
  using rne_mono [of q "of_int n"] by simp

lemma rne_ge_int: "of_int n \<le> q \<Longrightarrow> n \<le> rne q"
  using rne_mono [of "of_int n" q] by simp

lemma pow2_nonneg [simp]: "0 \<le> pow2 k"
  by (simp add: pow2_def)

lemma pow2_nonzero [simp]: "pow2 k \<noteq> 0"
  by (simp add: pow2_def)

lemma binade:
  assumes "0 < x"
  shows "pow2 \<lfloor>log 2 x\<rfloor> \<le> x" "x < pow2 (\<lfloor>log 2 x\<rfloor> + 1)"
  using floor_log_eq_powr_iff [of x 2 "\<lfloor>log 2 x\<rfloor>"] assms by (simp_all add: pow2_def)

lemma floor_log_less:
  assumes "0 < x" "x < pow2 k"
  shows "\<lfloor>log 2 x\<rfloor> < k"
proof (rule ccontr)
  assume "\<not> \<lfloor>log 2 x\<rfloor> < k"
  then have "pow2 k \<le> pow2 \<lfloor>log 2 x\<rfloor>" by (intro pow2_mono) simp
  with binade(1) [OF assms(1)] assms(2) show False by simp
qed

lemma floor_log_mono:
  assumes "0 < x" "x \<le> y"
  shows "\<lfloor>log 2 x\<rfloor> \<le> \<lfloor>log 2 y\<rfloor>"
  using assms by (intro floor_mono) simp

lemma ulp_exponent_ge [simp]: "- 1074 \<le> ulp_exponent x"
  by (simp add: ulp_exponent_def)

lemma ulp_exponent_mono: "0 < x \<Longrightarrow> x \<le> y \<Longrightarrow> ulp_exponent x \<le> ulp_exponent y"
  using floor_log_mono [of x y] by (simp add: ulp_exponent_def)

lemma scaled_less:
  assumes "0 < x"
  shows "x / pow2 (ulp_exponent x) < 2 ^ 53"
proof -
  have "\<lfloor>log 2 x\<rfloor> + 1 \<le> ulp_exponent x + 53" by (simp add: ulp_exponent_def)
  then have "pow2 (\<lfloor>log 2 x\<rfloor> + 1) \<le> pow2 (ulp_exponent x + 53)" by (rule pow2_mono)
  with binade(2) [OF assms] have "x < pow2 (ulp_exponent x + 53)" by simp
  also have "\<dots> = pow2 (ulp_exponent x) * 2 ^ 53"
    using pow2_nat [of 53] by (simp add: pow2_add)
  finally show ?thesis by (simp add: pos_divide_less_eq mult.commute)
qed

lemma scaled_ge:
  assumes "0 < x" "ulp_exponent x = \<lfloor>log 2 x\<rfloor> - 52"
  shows "2 ^ 52 \<le> x / pow2 (ulp_exponent x)"
proof -
  have "pow2 (ulp_exponent x) * 2 ^ 52 = pow2 (ulp_exponent x + 52)"
    using pow2_nat [of 52] by (simp add: pow2_add)
  also have "\<dots> = pow2 \<lfloor>log 2 x\<rfloor>" using assms(2) by simp
  also have "\<dots> \<le> x" by (rule binade(1) [OF assms(1)])
  finally show ?thesis by (simp add: pos_le_divide_eq mult.commute)
qed

lemma round_pos_mantissa:
  assumes "0 < x"
  shows "0 \<le> rne (x / pow2 (ulp_exponent x))" "rne (x / pow2 (ulp_exponent x)) \<le> 2 ^ 53"
proof -
  have "of_int 0 \<le> x / pow2 (ulp_exponent x)" using assms by simp
  then show "0 \<le> rne (x / pow2 (ulp_exponent x))" by (rule rne_ge_int)
  have "x / pow2 (ulp_exponent x) \<le> of_int (2 ^ 53)" using scaled_less [OF assms] by simp
  then show "rne (x / pow2 (ulp_exponent x)) \<le> 2 ^ 53" by (rule rne_le_int)
qed

lemma round_pos_nonneg: "0 < x \<Longrightarrow> 0 \<le> round_pos x"
  using round_pos_mantissa(1) [of x] by (simp add: round_pos_def)

lemma round_pos_exact:
  assumes "fp_form x"
  shows "round_pos x = x"
proof -
  from assms obtain n k where x: "x = of_int n * pow2 k" and n: "0 < n" "n < 2 ^ 53"
    and k: "- 1074 \<le> k"
    unfolding fp_form_def by blast
  define e where "e = ulp_exponent x"
  have pos: "0 < x" using x n by simp
  have "of_int n < (2 ^ 53 :: real)" using n(2) by (metis of_int_less_numeral_power_cancel_iff)
  then have "x < 2 ^ 53 * pow2 k" unfolding x by simp
  also have "\<dots> = pow2 (k + 53)" using pow2_nat [of 53] by (simp add: pow2_add)
  finally have "\<lfloor>log 2 x\<rfloor> < k + 53" by (rule floor_log_less [OF pos])
  then have e: "e \<le> k" using k by (simp add: e_def ulp_exponent_def)
  define d where "d = nat (k - e)"
  have "pow2 k = pow2 (e + int d)" using e by (simp add: d_def)
  then have pk: "pow2 k = pow2 e * 2 ^ d" by (simp add: pow2_add pow2_nat)
  have "x / pow2 e = of_int (n * 2 ^ d)" by (simp add: x pk)
  then have "rne (x / pow2 e) = n * 2 ^ d" by (simp only: rne_int)
  then have "round_pos x = of_int (n * 2 ^ d) * pow2 e"
    by (simp add: round_pos_def e_def)
  also have "\<dots> = x" by (simp add: x pk)
  finally show ?thesis .
qed

lemma round_pos_form:
  assumes "0 < x"
  shows "round_pos x = 0 \<or> fp_form (round_pos x)"
proof -
  define e where "e = ulp_exponent x"
  define m where "m = rne (x / pow2 e)"
  have r: "round_pos x = of_int m * pow2 e" by (simp add: round_pos_def m_def e_def)
  have m: "0 \<le> m" "m \<le> 2 ^ 53" using round_pos_mantissa [OF assms] by (simp_all add: m_def e_def)
  have e: "- 1074 \<le> e" by (simp add: e_def)
  consider "m = 0" | "0 < m" "m < 2 ^ 53" | "m = 2 ^ 53" using m by linarith
  then show ?thesis
  proof cases
    case 1
    then show ?thesis by (simp add: r)
  next
    case 2
    then have "fp_form (round_pos x)" unfolding fp_form_def r using e by blast
    then show ?thesis by simp
  next
    case 3
    have "round_pos x = of_int (2 ^ 52) * pow2 (e + 1)"
      using pow2_nat [of 1] by (simp add: r 3 pow2_add)
    moreover have "(0::int) < 2 ^ 52" "(2::int) ^ 52 < 2 ^ 53" "- 1074 \<le> e + 1"
      using e by simp_all
    ultimately have "fp_form (round_pos x)" unfolding fp_form_def by blast
    then show ?thesis by simp
  qed
qed

lemma fp_form_pos: "fp_form y \<Longrightarrow> 0 < y"
  by (auto simp: fp_form_def)

lemma fp_form_double: "fp_form y \<Longrightarrow> fp_form (2 * y)"
proof -
  assume "fp_form y"
  then obtain n k where "y = of_int n * pow2 k" "0 < n" "n < 2 ^ 53" "- 1074 \<le> k"
    unfolding fp_form_def by blast
  moreover from this have "2 * y = of_int n * pow2 (k + 1)" "- 1074 \<le> k + 1"
    using pow2_nat [of 1] by (simp_all add: pow2_add)
  ultimately show ?thesis unfolding fp_form_def by blast
qed

lemma round_pos_le_binade:
  assumes "0 < x"
  shows "round_pos x \<le> pow2 (ulp_exponent x + 53)"
proof -
  have "of_int (rne (x / pow2 (ulp_exponent x))) \<le> (2 ^ 53 :: real)"
    using round_pos_mantissa(2) [OF assms] by (metis of_int_le_numeral_power_cancel_iff)
  then have "round_pos x \<le> 2 ^ 53 * pow2 (ulp_exponent x)"
    unfolding round_pos_def by (intro mult_right_mono) simp_all
  also have "\<dots> = pow2 (ulp_exponent x + 53)" using pow2_nat [of 53] by (simp add: pow2_add)
  finally show ?thesis .
qed

lemma round_pos_ge_binade:
  assumes "0 < y" "ulp_exponent y = \<lfloor>log 2 y\<rfloor> - 52"
  shows "pow2 (ulp_exponent y + 52) \<le> round_pos y"
proof -
  have "of_int (2 ^ 52) \<le> y / pow2 (ulp_exponent y)" using scaled_ge [OF assms] by simp
  then have "2 ^ 52 \<le> rne (y / pow2 (ulp_exponent y))" by (rule rne_ge_int)
  then have "(2 ^ 52 :: real) \<le> of_int (rne (y / pow2 (ulp_exponent y)))"
    by (metis numeral_power_le_of_int_cancel_iff)
  then have "2 ^ 52 * pow2 (ulp_exponent y) \<le> round_pos y"
    unfolding round_pos_def by (intro mult_right_mono) simp_all
  moreover have "2 ^ 52 * pow2 (ulp_exponent y) = pow2 (ulp_exponent y + 52)"
    using pow2_nat [of 52] by (simp add: pow2_add)
  ultimately show ?thesis by simp
qed

lemma round_pos_mono:
  assumes "0 < x" "x \<le> y"
  shows "round_pos x \<le> round_pos y"
proof (cases "ulp_exponent x = ulp_exponent y")
  case True
  have "x / pow2 (ulp_exponent y) \<le> y / pow2 (ulp_exponent y)"
    using assms(2) by (simp add: divide_right_mono)
  then have "rne (x / pow2 (ulp_exponent y)) \<le> rne (y / pow2 (ulp_exponent y))" by (rule rne_mono)
  then show ?thesis
    unfolding round_pos_def True by (intro mult_right_mono) simp_all
next
  case False
  have y: "0 < y" using assms by simp
  from False ulp_exponent_mono [OF assms] have lt: "ulp_exponent x < ulp_exponent y" by simp
  then have "- 1074 < ulp_exponent y" using ulp_exponent_ge [of x] by linarith
  then have normal: "ulp_exponent y = \<lfloor>log 2 y\<rfloor> - 52" by (simp add: ulp_exponent_def)
  have "round_pos x \<le> pow2 (ulp_exponent x + 53)" by (rule round_pos_le_binade [OF assms(1)])
  also have "\<dots> \<le> pow2 (ulp_exponent y + 52)" using lt by (intro pow2_mono) simp
  also have "\<dots> \<le> round_pos y" by (rule round_pos_ge_binade [OF y normal])
  finally show ?thesis .
qed

lemma round_nearest_0 [simp]: "round_nearest 0 = 0"
  by (simp add: round_nearest_def)

lemma round_nearest_minus: "round_nearest (- x) = - round_nearest x"
  by (simp add: round_nearest_def)

lemma round_nearest_nonneg: "0 \<le> x \<Longrightarrow> 0 \<le> round_nearest x"
  using round_pos_nonneg [of x] by (simp add: round_nearest_def)

lemma round_nearest_mono:
  assumes "x \<le> y"
  shows "round_nearest x \<le> round_nearest y"
proof -
  consider "0 < x" | "x \<le> 0" "0 \<le> y" | "y < 0" using assms by linarith
  then show ?thesis
  proof cases
    case 1
    then show ?thesis using assms round_pos_mono [of x y] by (simp add: round_nearest_def)
  next
    case 2
    have "round_nearest x \<le> 0"
      using 2(1) round_nearest_nonneg [of "- x"] by (simp add: round_nearest_minus)
    with round_nearest_nonneg [OF 2(2)] show ?thesis by linarith
  next
    case 3
    then have "round_pos (- y) \<le> round_pos (- x)" using assms by (intro round_pos_mono) simp_all
    then show ?thesis using 3 assms by (simp add: round_nearest_def)
  qed
qed

lemma representable_iff: "representable x \<longleftrightarrow> x = 0 \<or> fp_form x \<or> fp_form (- x)"
proof
  assume r: "representable x"
  show "x = 0 \<or> fp_form x \<or> fp_form (- x)"
  proof (cases "x = 0")
    case True
    then show ?thesis by simp
  next
    case False
    show ?thesis
    proof (cases "0 < x")
      case True
      then have "round_pos x = x" using r by (simp add: representable_def round_nearest_def)
      with round_pos_form [OF True] False show ?thesis by simp
    next
      case neg: False
      then have p: "0 < - x" using False by simp
      then have "round_pos (- x) = - x"
        using r False neg by (simp add: representable_def round_nearest_def)
      with round_pos_form [OF p] False show ?thesis by simp
    qed
  qed
next
  assume "x = 0 \<or> fp_form x \<or> fp_form (- x)"
  then consider "x = 0" | "fp_form x" | "fp_form (- x)" by blast
  then show "representable x"
  proof cases
    case 1
    then show ?thesis by (simp add: representable_def)
  next
    case 2
    then show ?thesis
      using fp_form_pos [OF 2] round_pos_exact [OF 2]
      by (simp add: representable_def round_nearest_def)
  next
    case 3
    then show ?thesis
      using fp_form_pos [OF 3] round_pos_exact [OF 3]
      by (simp add: representable_def round_nearest_def)
  qed
qed

lemma round_nearest_representable: "representable (round_nearest x)"
proof -
  consider "x = 0" | "0 < x" | "x < 0" by linarith
  then show ?thesis
  proof cases
    case 1
    then show ?thesis by (simp add: representable_iff)
  next
    case 2
    then show ?thesis
      using round_pos_form [OF 2] by (auto simp: representable_iff round_nearest_def)
  next
    case 3
    then have "0 < - x" by simp
    from round_pos_form [OF this] 3 show ?thesis
      by (auto simp: representable_iff round_nearest_def)
  qed
qed

lemma round_nearest_idem [simp]: "round_nearest (round_nearest x) = round_nearest x"
  using round_nearest_representable [of x] by (simp add: representable_def)

lemma representable_double: "representable x \<Longrightarrow> representable (2 * x)"
  using fp_form_double [of x] fp_form_double [of "- x"] by (auto simp: representable_iff)

lemma representable_int_pow2:
  assumes "\<bar>n\<bar> < 2 ^ 53" "- 1074 \<le> k"
  shows "representable (of_int n * pow2 k)"
proof -
  consider "n = 0" | "0 < n" | "n < 0" by linarith
  then show ?thesis
  proof cases
    case 1
    then show ?thesis by (simp add: representable_iff)
  next
    case 2
    then have "fp_form (of_int n * pow2 k)" using assms unfolding fp_form_def by auto
    then show ?thesis by (simp add: representable_iff)
  next
    case 3
    have "- (of_int n * pow2 k) = of_int (- n) * pow2 k" by simp
    moreover have "0 < - n" "- n < 2 ^ 53" using 3 assms(1) by simp_all
    ultimately have "fp_form (- (of_int n * pow2 k))" using assms(2) unfolding fp_form_def by blast
    then show ?thesis by (simp add: representable_iff)
  qed
qed

lemma representable_small_int: "\<bar>n\<bar> < 2 ^ 53 \<Longrightarrow> representable (of_int n)"
  using representable_int_pow2 [of n 0] by simp

lemma representable_power2: "representable (2 ^ n)"
  using representable_int_pow2 [of 1 "int n"] by (simp add: pow2_nat)

lemma round_nearest_1 [simp]: "round_nearest 1 = 1"
  using representable_small_int [of 1] by (simp add: representable_def)

section \<open>Arithmetic on doubles\<close>

lemma to_double_cases:
  obtains "to_double x = PInf" "2 ^ 1024 \<le> round_nearest x"
  | "to_double x = NInf" "round_nearest x \<le> - (2 ^ 1024)"
  | "to_double x = Fin (round_nearest x)" "\<bar>round_nearest x\<bar> < 2 ^ 1024"
  by (cases "2 ^ 1024 \<le> round_nearest x"; cases "round_nearest x \<le> - (2 ^ 1024)")
     (auto simp: to_double_def Let_def)

lemma to_double_Fin_iff:
  "to_double x = Fin r \<longleftrightarrow> r = round_nearest x \<and> \<bar>round_nearest x\<bar> < 2 ^ 1024"
  by (cases x rule: to_double_cases) auto

lemma to_double_finite: "\<bar>round_nearest x\<bar> < 2 ^ 1024 \<Longrightarrow> to_double x = Fin (round_nearest x)"
  by (simp add: to_double_Fin_iff)

lemma to_double_exact: "is_double x \<Longrightarrow> to_double x = Fin x"
  by (simp add: is_double_def representable_def to_double_Fin_iff)

lemma to_double_is_double: "to_double x = Fin r \<Longrightarrow> is_double r"
  using round_nearest_representable [of x] by (auto simp: to_double_Fin_iff is_double_def)

lemma to_double_PInf_iff: "to_double x = PInf \<longleftrightarrow> 2 ^ 1024 \<le> round_nearest x"
  by (cases x rule: to_double_cases) auto

lemma to_double_not_NaN [simp]: "to_double x \<noteq> NaN"
  by (cases x rule: to_double_cases) auto

lemma dadd_commute: "dadd a b = dadd b a"
  by (cases a; cases b) (simp_all add: add.commute)

lemma dmul_commute: "dmul a b = dmul b a"
  by (cases a; cases b) (simp_all add: mult.commute)

lemma dmax_Fin: "dmax (Fin x) (Fin y) = Fin (max x y)"
  by (simp add: dmax_def max_def)

lemma dmin_Fin: "dmin (Fin x) (Fin y) = Fin (min x y)"
  by (simp add: dmin_def min_def)

lemma dsub_Fin: "dsub (Fin x) (Fin y) = to_double (x - y)"
  by (simp add: dsub_def)

lemma dmul_Fin_D: "dmul a b = Fin v \<Longrightarrow> \<exists>x y. a = Fin x \<and> b = Fin y"
  by (cases a; cases b) (auto simp: inf_of_sign_def split: if_splits)

lemma dadd_Fin_D: "dadd a b = Fin v \<Longrightarrow> \<exists>x y. a = Fin x \<and> b = Fin y"
  by (cases a; cases b) auto

lemma float_box_sel [simp]:
  "d0 (float_box b) = Fin (b0 b)" "d1 (float_box b) = Fin (b1 b)"
  "d2 (float_box b) = Fin (b2 b)" "d3 (float_box b) = Fin (b3 b)"
  by (simp_all add: float_box_def d0_def d1_def d2_def d3_def)

lemma is_double_0 [simp]: "is_double 0"
  by (simp add: is_double_def representable_def)

lemma is_double_1 [simp]: "is_double 1"
  by (simp add: is_double_def representable_def)

lemma side_cases:
  assumes "lo \<le> hi"
  obtains w where "dsub (Fin hi) (Fin lo) = Fin w" "0 \<le> w" "is_double w" "dmax (Fin 0) (Fin w) = Fin w"
  | "dsub (Fin hi) (Fin lo) = PInf"
proof -
  have nn: "0 \<le> round_nearest (hi - lo)" using assms by (intro round_nearest_nonneg) simp
  show ?thesis
  proof (cases "hi - lo" rule: to_double_cases)
    case 1
    then show ?thesis using that(2) by (simp add: dsub_Fin)
  next
    case 2
    then show ?thesis using nn by simp
  next
    case 3
    then have "dsub (Fin hi) (Fin lo) = Fin (round_nearest (hi - lo))" by (simp add: dsub_Fin)
    moreover have "is_double (round_nearest (hi - lo))"
      using 3(1) by (rule to_double_is_double)
    moreover have "dmax (Fin 0) (Fin (round_nearest (hi - lo))) = Fin (round_nearest (hi - lo))"
      using nn by (simp add: dmax_Fin)
    ultimately show ?thesis using that(1) nn by blast
  qed
qed

lemma dmax_zero_PInf [simp]: "dmax (Fin 0) PInf = PInf"
  by (simp add: dmax_def)

lemma clamp_side:
  assumes "lo \<le> hi"
  shows "dmax (Fin 0) (dsub (Fin hi) (Fin lo)) = dsub (Fin hi) (Fin lo)"
  using assms by (rule side_cases) simp_all

lemma side_not_bad:
  assumes "lo \<le> hi"
  shows "dsub (Fin hi) (Fin lo) \<noteq> NInf" "dsub (Fin hi) (Fin lo) \<noteq> NaN"
  using assms by (rule side_cases; simp)+

lemma area_not_NInf:
  assumes "valid_bbox b"
  shows "double_area (float_box b) \<noteq> NInf"
proof -
  from assms have x: "b1 b \<le> b3 b" and y: "b0 b \<le> b2 b" by (simp_all add: valid_bbox_def)
  show ?thesis
  proof (rule side_cases [OF x]; rule side_cases [OF y])
    fix w h assume "dsub (Fin (b3 b)) (Fin (b1 b)) = Fin w" "0 \<le> w"
      "dsub (Fin (b2 b)) (Fin (b0 b)) = Fin h" "0 \<le> h"
    moreover from this have "0 \<le> round_nearest (w * h)" by (intro round_nearest_nonneg) simp
    ultimately show ?thesis
      by (cases "w * h" rule: to_double_cases) (simp_all add: double_area_def)
  qed (auto simp: double_area_def inf_of_sign_def)
qed

section \<open>Properties of the intersection over union in double precision\<close>

lemma iou_double_same_box:
  assumes "valid_bbox b"
  shows "iou_double (float_box b) (float_box b) =
     (case double_area (float_box b) of
        Fin v \<Rightarrow> if v = 0 then Inr (Fin 0) else if 2 * v < 2 ^ 1024 then Inr (Fin 1) else Inr (Fin 0)
      | PInf \<Rightarrow> Inr NaN
      | NInf \<Rightarrow> Inr NaN
      | NaN \<Rightarrow> Inr NaN)"
proof -
  from assms have x: "b1 b \<le> b3 b" and y: "b0 b \<le> b2 b" by (simp_all add: valid_bbox_def)
  define A where "A = double_area (float_box b)"
  have unf: "iou_double (float_box b) (float_box b) =
      (if A = Fin 0 then Inr (Fin 0) else ddiv A (dsub (dadd A A) A))"
    by (simp add: iou_double_def Let_def dmax_Fin dmin_Fin clamp_side [OF x] clamp_side [OF y]
        A_def double_area_def)
  show ?thesis
  proof (cases A)
    case (Fin v)
    then have d: "is_double v"
      using dmul_Fin_D [of _ _ v] unfolding A_def double_area_def
      by (metis dmul.simps(1) to_double_is_double)
    show ?thesis
    proof (cases "v = 0")
      case True
      then show ?thesis using Fin by (simp add: unf A_def [symmetric])
    next
      case False
      have r2: "round_nearest (2 * v) = 2 * v"
        using d representable_double [of v] by (simp add: is_double_def representable_def)
      have nn: "0 \<le> v"
      proof -
        obtain w h where "dsub (Fin (b3 b)) (Fin (b1 b)) = Fin w" "dsub (Fin (b2 b)) (Fin (b0 b)) = Fin h"
          using Fin dmul_Fin_D [of _ _ v] unfolding A_def double_area_def by fastforce
        moreover from this have "0 \<le> w" "0 \<le> h"
          using x y by (auto simp: dsub_Fin to_double_Fin_iff intro: round_nearest_nonneg)
        ultimately have "v = round_nearest (w * h)" "0 \<le> w * h"
          using Fin unfolding A_def double_area_def by (simp_all add: to_double_Fin_iff)
        then show ?thesis by (simp add: round_nearest_nonneg)
      qed
      show ?thesis
      proof (cases "2 * v < 2 ^ 1024")
        case True
        then have "dadd A A = Fin (2 * v)"
          using Fin r2 nn by (simp add: to_double_Fin_iff)
        moreover have "dsub (Fin (2 * v)) (Fin v) = Fin v"
          using d by (simp add: dsub_Fin to_double_exact)
        moreover have "to_double 1 = Fin 1" by (simp add: to_double_exact)
        ultimately show ?thesis
          using Fin False True by (simp add: unf A_def [symmetric] ddiv_def)
      next
        case over: False
        then have "dadd A A = PInf"
          using Fin r2 by (simp add: to_double_PInf_iff)
        then show ?thesis
          using Fin False over by (simp add: unf A_def [symmetric] ddiv_def dsub_def)
      qed
    qed
  next
    case PInf
    then show ?thesis by (simp add: unf A_def [symmetric] ddiv_def dsub_def)
  next
    case NInf
    then show ?thesis using area_not_NInf [OF assms] by (simp add: A_def)
  next
    case NaN
    then show ?thesis by (simp add: unf A_def [symmetric] ddiv_def dsub_def)
  qed
qed

lemma iou_double_commute: "iou_double (float_box a) (float_box b) = iou_double (float_box b) (float_box a)"
  by (simp add: iou_double_def Let_def dmax_Fin dmin_Fin max.commute min.commute
      dadd_commute [of "dmul (dsub (Fin (b3 a)) (Fin (b1 a))) (dsub (Fin (b2 a)) (Fin (b0 a)))"])

text \<open>The clamped side of the intersection is a double between 0 and the side of a box.\<close>

lemma overlap_side:
  assumes "lo \<le> hi" "dsub (Fin hi) (Fin lo) = Fin w" "hi' - lo' \<le> hi - lo"
  obtains m where "dmax (Fin 0) (dsub (Fin hi') (Fin lo')) = Fin m" "0 \<le> m" "m \<le> w"
proof -
  have w: "w = round_nearest (hi - lo)" "\<bar>round_nearest (hi - lo)\<bar> < 2 ^ 1024"
    using assms(2) by (simp_all add: dsub_Fin to_double_Fin_iff)
  have w0: "0 \<le> w" unfolding w(1) using assms(1) by (intro round_nearest_nonneg) simp
  have le: "round_nearest (hi' - lo') \<le> w"
    unfolding w(1) by (rule round_nearest_mono [OF assms(3)])
  show ?thesis
  proof (cases "hi' - lo'" rule: to_double_cases)
    case 1
    then show ?thesis using le w by linarith
  next
    case 2
    then have "dmax (Fin 0) (dsub (Fin hi') (Fin lo')) = Fin 0"
      by (simp add: dsub_Fin dmax_def)
    then show ?thesis using that w0 by blast
  next
    case 3
    then have "dmax (Fin 0) (dsub (Fin hi') (Fin lo')) = Fin (max 0 (round_nearest (hi' - lo')))"
      by (simp add: dsub_Fin dmax_Fin)
    moreover have "0 \<le> max 0 (round_nearest (hi' - lo'))" "max 0 (round_nearest (hi' - lo')) \<le> w"
      using le w0 by simp_all
    ultimately show ?thesis using that by blast
  qed
qed

lemma iou_double_range:
  assumes va: "valid_bbox a" and vb: "valid_bbox b"
    and sum: "dadd (double_area (float_box a)) (double_area (float_box b)) = Fin s"
  shows "\<exists>r. iou_double (float_box a) (float_box b) = Inr (Fin r) \<and> 0 \<le> r \<and> r \<le> 1"
proof -
  from va have ax: "b1 a \<le> b3 a" and ay: "b0 a \<le> b2 a" by (simp_all add: valid_bbox_def)
  from vb have bx: "b1 b \<le> b3 b" and by': "b0 b \<le> b2 b" by (simp_all add: valid_bbox_def)
  from dadd_Fin_D [OF sum] obtain \<alpha> \<beta> where
    A: "double_area (float_box a) = Fin \<alpha>" and B: "double_area (float_box b) = Fin \<beta>" by blast
  from dmul_Fin_D [OF A [unfolded double_area_def]] obtain wa ha where
    wa: "dsub (Fin (b3 a)) (Fin (b1 a)) = Fin wa" and ha: "dsub (Fin (b2 a)) (Fin (b0 a)) = Fin ha"
    by auto
  from dmul_Fin_D [OF B [unfolded double_area_def]] obtain wb hb where
    wb: "dsub (Fin (b3 b)) (Fin (b1 b)) = Fin wb" and hb: "dsub (Fin (b2 b)) (Fin (b0 b)) = Fin hb"
    by auto
  have \<alpha>: "\<alpha> = round_nearest (wa * ha)" "\<bar>round_nearest (wa * ha)\<bar> < 2 ^ 1024"
    using A by (simp_all add: double_area_def wa ha to_double_Fin_iff)
  have \<beta>: "\<beta> = round_nearest (wb * hb)" "\<bar>round_nearest (wb * hb)\<bar> < 2 ^ 1024"
    using B by (simp_all add: double_area_def wb hb to_double_Fin_iff)
  have s: "s = round_nearest (\<alpha> + \<beta>)" "\<bar>round_nearest (\<alpha> + \<beta>)\<bar> < 2 ^ 1024"
    using sum by (simp_all add: A B to_double_Fin_iff)
  define dx where "dx = min (b3 a) (b3 b) - max (b1 a) (b1 b)"
  define dy where "dy = min (b2 a) (b2 b) - max (b0 a) (b0 b)"
  have dxa: "dx \<le> b3 a - b1 a" and dxb: "dx \<le> b3 b - b1 b"
    and dya: "dy \<le> b2 a - b0 a" and dyb: "dy \<le> b2 b - b0 b"
    unfolding dx_def dy_def by linarith+
  obtain mx where mx: "dmax (Fin 0) (dsub (Fin (min (b3 a) (b3 b))) (Fin (max (b1 a) (b1 b)))) = Fin mx"
    "0 \<le> mx" "mx \<le> wa"
    using overlap_side [OF ax wa dxa [unfolded dx_def]] by blast
  have mxb: "mx \<le> wb"
    using overlap_side [OF bx wb dxb [unfolded dx_def]] mx(1) by auto
  obtain my where my: "dmax (Fin 0) (dsub (Fin (min (b2 a) (b2 b))) (Fin (max (b0 a) (b0 b)))) = Fin my"
    "0 \<le> my" "my \<le> ha"
    using overlap_side [OF ay ha dya [unfolded dy_def]] by blast
  have myb: "my \<le> hb"
    using overlap_side [OF by' hb dyb [unfolded dy_def]] my(1) by auto
  define i where "i = round_nearest (mx * my)"
  have i0: "0 \<le> i" unfolding i_def using mx(2) my(2) by (intro round_nearest_nonneg) simp
  have ia: "i \<le> \<alpha>" unfolding i_def \<alpha>(1)
    by (intro round_nearest_mono mult_mono) (use mx my in simp_all)
  have ib: "i \<le> \<beta>" unfolding i_def \<beta>(1)
    by (intro round_nearest_mono mult_mono) (use mx my mxb myb in simp_all)
  have ifin: "\<bar>i\<bar> < 2 ^ 1024" using i0 ia \<alpha> by simp
  have I: "to_double (mx * my) = Fin i"
    using ifin by (simp add: i_def to_double_Fin_iff)
  have unf: "iou_double (float_box a) (float_box b) =
      (if i = 0 then Inr (Fin 0) else ddiv (Fin i) (dsub (Fin s) (Fin i)))"
    using sum by (simp add: iou_double_def Let_def dmax_Fin dmin_Fin mx(1) my(1) I
        double_area_def)
  show ?thesis
  proof (cases "i = 0")
    case True
    then show ?thesis by (simp add: unf)
  next
    case False
    then have ipos: "0 < i" using i0 by simp
    have irep: "round_nearest i = i" by (simp add: i_def)
    have i2: "round_nearest (2 * i) = 2 * i"
      using representable_double [of i] irep by (simp add: representable_def)
    have "2 * i \<le> \<alpha> + \<beta>" using ia ib by simp
    then have "round_nearest (2 * i) \<le> s" unfolding s(1) by (rule round_nearest_mono)
    then have s2: "2 * i \<le> s" by (simp add: i2)
    define u where "u = round_nearest (s - i)"
    have "round_nearest i \<le> u" unfolding u_def by (rule round_nearest_mono) (use s2 in simp)
    then have ui: "i \<le> u" by (simp add: irep)
    have "u \<le> round_nearest s" unfolding u_def by (rule round_nearest_mono) (use ipos in simp)
    then have us: "u \<le> s" by (simp add: s(1))
    have ufin: "\<bar>u\<bar> < 2 ^ 1024" using ui ipos us s by simp
    have U: "dsub (Fin s) (Fin i) = Fin u"
      using ufin by (simp add: dsub_Fin u_def to_double_Fin_iff)
    define r where "r = round_nearest (i / u)"
    have q: "0 \<le> i / u" "i / u \<le> 1" using ipos ui by simp_all
    have r0: "0 \<le> r" unfolding r_def by (rule round_nearest_nonneg [OF q(1)])
    have "r \<le> round_nearest 1" unfolding r_def by (rule round_nearest_mono [OF q(2)])
    then have r1: "r \<le> 1" by simp
    have "to_double (i / u) = Fin r" using r0 r1 by (simp add: r_def to_double_Fin_iff)
    then have "iou_double (float_box a) (float_box b) = Inr (Fin r)"
      using False ipos ui by (simp add: unf U ddiv_def)
    with r0 r1 show ?thesis by blast
  qed
qed

lemma is_double_int: "\<bar>n\<bar> < 2 ^ 53 \<Longrightarrow> is_double (of_int n)"
proof -
  assume n: "\<bar>n\<bar> < 2 ^ 53"
  then have "\<bar>of_int n :: real\<bar> < 2 ^ 53"
    by (metis of_int_abs of_int_less_numeral_power_cancel_iff)
  also have "(2 ^ 53 :: real) < 2 ^ 1024" by simp
  finally show ?thesis using representable_small_int [OF n] by (simp add: is_double_def)
qed

lemma is_double_small: "is_double 2" "is_double 4" "is_double 6"
  using is_double_int [of 2] is_double_int [of 4] is_double_int [of 6] by simp_all

lemma is_double_half: "is_double (1 / 2)"
proof -
  have h: "pow2 (- 1) = 1 / 2" by (simp add: pow2_def powr_minus inverse_eq_divide)
  have "representable (of_int 1 * pow2 (- 1))" by (rule representable_int_pow2) simp_all
  then have "representable (1 / 2)" unfolding h by simp
  then show ?thesis by (simp add: is_double_def)
qed

lemma is_double_power2: "n < 1024 \<Longrightarrow> is_double (2 ^ n)"
proof -
  assume "n < 1024"
  then have "(2 :: real) ^ n < 2 ^ 1024" by (rule power_strict_increasing) simp
  moreover have "\<bar>(2 :: real) ^ n\<bar> = 2 ^ n" by (rule abs_of_nonneg) simp
  ultimately show ?thesis by (simp only: is_double_def representable_power2 simp_thms)
qed

lemma to_double_power2: "to_double (2 ^ k) = (if k < 1024 then Fin (2 ^ k) else PInf)"
proof (cases "k < 1024")
  case True
  then show ?thesis using to_double_exact [OF is_double_power2 [OF True]] by (simp only: if_True)
next
  case False
  have "round_nearest (2 ^ k) = 2 ^ k"
    using representable_power2 [of k] by (simp only: representable_def)
  moreover have "(2 :: real) ^ 1024 \<le> 2 ^ k" by (rule power_increasing) (use False in simp_all)
  ultimately have "to_double (2 ^ k) = PInf" by (simp only: to_double_PInf_iff)
  then show ?thesis using False by (simp only: if_False)
qed

lemma box_sel [simp]:
  "b0 (y0, x0, y1, x1) = y0" "b1 (y0, x0, y1, x1) = x0"
  "b2 (y0, x0, y1, x1) = y1" "b3 (y0, x0, y1, x1) = x1"
  by (simp_all add: b0_def b1_def b2_def b3_def)

lemma area_power2:
  assumes "n < 1024" "m < 1024"
  shows "double_area (float_box (0, 0, 2 ^ n, 2 ^ m)) = to_double (2 ^ (m + n))"
proof -
  have "dsub (Fin (2 ^ m)) (Fin 0) = Fin (2 ^ m)" "dsub (Fin (2 ^ n)) (Fin 0) = Fin (2 ^ n)"
    using to_double_exact [OF is_double_power2 [OF assms(1)]]
      to_double_exact [OF is_double_power2 [OF assms(2)]]
    by (simp_all only: dsub_Fin diff_zero)
  then show ?thesis
    by (simp only: double_area_def float_box_sel box_sel dmul.simps power_add)
qed

lemma same_box_power2:
  assumes "n < 1024" "m < 1024"
  shows "iou_double (float_box (0, 0, 2 ^ n, 2 ^ m)) (float_box (0, 0, 2 ^ n, 2 ^ m)) =
     (if m + n < 1023 then Inr (Fin 1) else if m + n = 1023 then Inr (Fin 0) else Inr NaN)"
proof -
  have v: "valid_bbox (0, 0, 2 ^ n, 2 ^ m)" by (simp only: valid_bbox_def box_sel) simp
  note s = iou_double_same_box [OF v, unfolded area_power2 [OF assms] to_double_power2]
  show ?thesis
  proof (cases "m + n < 1024")
    case True
    have "(2 :: real) * 2 ^ (m + n) < 2 ^ 1024 \<longleftrightarrow> m + n < 1023"
    proof -
      have "(2 :: real) * 2 ^ (m + n) = 2 ^ Suc (m + n)" by simp
      moreover have "(2 :: real) ^ Suc (m + n) < 2 ^ 1024 \<longleftrightarrow> Suc (m + n) < 1024"
        by (rule power_strict_increasing_iff) simp
      ultimately show ?thesis by auto
    qed
    moreover have "(2 :: real) ^ (m + n) \<noteq> 0" by simp
    ultimately show ?thesis using True unfolding s by auto
  next
    case False
    then show ?thesis unfolding s by simp
  qed
qed

lemma power2_box:
  assumes "n < 1024" "m < 1024"
  shows "valid_bbox (0, 0, 2 ^ n, 2 ^ m)" "double_box (0, 0, 2 ^ n, 2 ^ m)"
    "0 < bbox_area (0, 0, 2 ^ n, 2 ^ m)"
  using is_double_power2 [OF assms(1)] is_double_power2 [OF assms(2)]
  by (simp_all add: valid_bbox_def double_box_def bbox_area_def)


lemma area_flat: "double_area (float_box (0, 0, 0, 1)) = Fin 0"
  by (simp add: double_area_def dsub_Fin to_double_exact)

lemma iou_double_example:
  "iou_double (float_box (0, 0, 2, 2)) (float_box (0, 0, 2, 1)) = Inr (Fin (1 / 2))"
  by (simp add: iou_double_def Let_def dmax_Fin dmin_Fin dsub_Fin to_double_exact
      is_double_small is_double_half ddiv_def)

lemma iou_double_unbounded_sum:
  assumes "\<And>s. dadd (double_area (float_box a)) (double_area (float_box b)) \<noteq> Fin s"
  shows "iou_double (float_box a) (float_box b) = Inr (Fin 0) \<or>
         iou_double (float_box a) (float_box b) = Inr NaN"
proof -
  define S where "S = dadd (double_area (float_box a)) (double_area (float_box b))"
  define I where "I = dmul (dmax (Fin 0) (dsub (dmin (Fin (b3 a)) (Fin (b3 b))) (dmax (Fin (b1 a)) (Fin (b1 b)))))
      (dmax (Fin 0) (dsub (dmin (Fin (b2 a)) (Fin (b2 b))) (dmax (Fin (b0 a)) (Fin (b0 b)))))"
  have unf: "iou_double (float_box a) (float_box b) =
      (if I = Fin 0 then Inr (Fin 0) else ddiv I (dsub S I))"
    by (simp add: iou_double_def Let_def I_def S_def double_area_def)
  have S: "S = PInf \<or> S = NInf \<or> S = NaN"
    using assms unfolding S_def [symmetric] by (cases S) auto
  have "ddiv I (dsub S I) = Inr (Fin 0) \<or> ddiv I (dsub S I) = Inr NaN"
    using S by (cases I) (auto simp: dsub_def ddiv_def)
  then show ?thesis by (auto simp: unf)
qed

lemma iou_double_outcome:
  assumes "valid_bbox a" "valid_bbox b"
  shows "iou_double (float_box a) (float_box b) = Inr NaN \<or>
         (results_equal (iou_double (float_box a) (float_box b)) (iou_double (float_box b) (float_box a)) \<and>
          result_in_unit (iou_double (float_box a) (float_box b)))"
proof (cases "\<exists>s. dadd (double_area (float_box a)) (double_area (float_box b)) = Fin s")
  case True
  then obtain s where "dadd (double_area (float_box a)) (double_area (float_box b)) = Fin s" by blast
  from iou_double_range [OF assms this] obtain r where
    r: "iou_double (float_box a) (float_box b) = Inr (Fin r)" "0 \<le> r" "r \<le> 1" by blast
  then show ?thesis
    by (simp add: iou_double_commute [of b a] results_equal_def result_in_unit_def
        in_unit_interval_def deq_def)
next
  case False
  then have "iou_double (float_box a) (float_box b) = Inr (Fin 0) \<or>
         iou_double (float_box a) (float_box b) = Inr NaN"
    by (intro iou_double_unbounded_sum) blast
  then show ?thesis
    by (auto simp: iou_double_commute [of b a] results_equal_def result_in_unit_def
        in_unit_interval_def deq_def)
qed

lemma iou_double_finite_sum:
  assumes "valid_bbox a" "valid_bbox b"
    and "dadd (double_area (float_box a)) (double_area (float_box b)) = Fin s"
  shows "results_equal (iou_double (float_box a) (float_box b)) (iou_double (float_box b) (float_box a)) \<and>
         result_in_unit (iou_double (float_box a) (float_box b))"
proof -
  from iou_double_range [OF assms] obtain r where
    r: "iou_double (float_box a) (float_box b) = Inr (Fin r)" "0 \<le> r" "r \<le> 1" by blast
  then show ?thesis
    by (simp add: iou_double_commute [of b a] results_equal_def result_in_unit_def
        in_unit_interval_def deq_def)
qed

lemma double_area_exact:
  assumes "is_double (b3 b - b1 b)" "is_double (b2 b - b0 b)" "is_double (bbox_area b)"
  shows "double_area (float_box b) = Fin (bbox_area b)"
  using assms by (simp add: double_area_def dsub_Fin to_double_exact bbox_area_def)


text \<open>
  When no operation rounds, the computation in doubles returns the value of the computation
  in exact arithmetic.
\<close>

lemma iou_double_exact:
  fixes a b :: bbox
  defines "dx \<equiv> min (b3 a) (b3 b) - max (b1 a) (b1 b)"
    and "dy \<equiv> min (b2 a) (b2 b) - max (b0 a) (b0 b)"
  defines "I \<equiv> max 0 dx * max 0 dy"
  assumes "is_double dx" "is_double dy" "is_double I"
    and "is_double (b3 a - b1 a)" "is_double (b2 a - b0 a)" "is_double (bbox_area a)"
    and "is_double (b3 b - b1 b)" "is_double (b2 b - b0 b)" "is_double (bbox_area b)"
    and "is_double (bbox_area a + bbox_area b)" "is_double (bbox_area a + bbox_area b - I)"
    and "is_double (I / (bbox_area a + bbox_area b - I))"
  shows "iou_double (float_box a) (float_box b) =
     (case iou a b of Inl e \<Rightarrow> Inl e | Inr v \<Rightarrow> Inr (Fin v))"
proof -
  have A: "double_area (float_box a) = Fin (bbox_area a)"
    and B: "double_area (float_box b) = Fin (bbox_area b)"
    using assms by (simp_all add: double_area_exact)
  have Id: "dmul (dmax (Fin 0) (dsub (Fin (min (b3 a) (b3 b))) (Fin (max (b1 a) (b1 b)))))
      (dmax (Fin 0) (dsub (Fin (min (b2 a) (b2 b))) (Fin (max (b0 a) (b0 b))))) = Fin I"
    using assms(4-6) by (simp add: dsub_Fin to_double_exact dmax_Fin dx_def dy_def I_def)
  have "iou_double (float_box a) (float_box b) =
      (if I = 0 then Inr (Fin 0)
       else ddiv (Fin I) (dsub (dadd (Fin (bbox_area a)) (Fin (bbox_area b))) (Fin I)))"
    using A B by (simp add: iou_double_def Let_def dmax_Fin dmin_Fin Id double_area_def)
  also have "\<dots> = (if I = 0 then Inr (Fin 0)
       else if bbox_area a + bbox_area b - I = 0 then Inl ZeroDivisionError
       else Inr (Fin (I / (bbox_area a + bbox_area b - I))))"
    using assms(13-15) by (simp add: dsub_Fin to_double_exact ddiv_def)
  also have "\<dots> = (case iou a b of Inl e \<Rightarrow> Inl e | Inr v \<Rightarrow> Inr (Fin v))"
    by (simp add: iou_unfold Let_def I_def dx_def dy_def py_div_def)
  finally show ?thesis .
qed

lemma area_examples:
  "double_area (float_box (0, 0, 2, 2)) = Fin 4" "double_area (float_box (0, 0, 2, 1)) = Fin 2"
  by (simp_all add: double_area_def dsub_Fin to_double_exact is_double_small)

subsection \<open>A box against itself\<close>




subsection \<open>Symmetry and range\<close>

text \<open>
  Claim C7. For boxes \<open>a\<close> and \<open>b\<close> with \<open>ymin \<le> ymax\<close> and \<open>xmin \<le> xmax\<close>,
  \<open>iou(a, b) = iou(b, a)\<close> and the result lies between 0 and 1. In exact arithmetic this
  holds (lemmas \<open>iou_commute\<close> and \<open>iou_total\<close>). On float boxes the two calls always
  return the same double, and that double is either nan or a number from 0 to 1 that is
  equal to itself for \<^verbatim>\<open>==\<close>. It is a number from 0 to 1 whenever the sum of the two
  computed areas is finite.
\<close>

theorem iou_double_symmetric_bounded:
  assumes "valid_bbox a" "valid_bbox b"
  shows "iou_double (float_box a) (float_box b) = iou_double (float_box b) (float_box a) \<and>
    (iou_double (float_box a) (float_box b) = Inr NaN \<or>
       (results_equal (iou_double (float_box a) (float_box b)) (iou_double (float_box b) (float_box a)) \<and>
        result_in_unit (iou_double (float_box a) (float_box b)))) \<and>
    (\<forall>s. dadd (double_area (float_box a)) (double_area (float_box b)) = Fin s \<longrightarrow>
       results_equal (iou_double (float_box a) (float_box b)) (iou_double (float_box b) (float_box a)) \<and>
       result_in_unit (iou_double (float_box a) (float_box b)))"
  using iou_double_commute [of a b] iou_double_outcome [OF assms] iou_double_finite_sum [OF assms]
  by blast

theorem iou_double_symmetric_bounded_witness:
  "valid_bbox (0, 0, 2, 2) \<and> valid_bbox (0, 0, 2, 1) \<and>
   double_box (0, 0, 2, 2) \<and> double_box (0, 0, 2, 1) \<and>
   dadd (double_area (float_box (0, 0, 2, 2))) (double_area (float_box (0, 0, 2, 1))) = Fin 6 \<and>
   iou_double (float_box (0, 0, 2, 2)) (float_box (0, 0, 2, 1)) = Inr (Fin (1 / 2)) \<and>
   iou_double (float_box (0, 0, 2, 1)) (float_box (0, 0, 2, 2)) = Inr (Fin (1 / 2)) \<and>
   results_equal (iou_double (float_box (0, 0, 2, 2)) (float_box (0, 0, 2, 1)))
                 (iou_double (float_box (0, 0, 2, 1)) (float_box (0, 0, 2, 2))) \<and>
   result_in_unit (iou_double (float_box (0, 0, 2, 2)) (float_box (0, 0, 2, 1)))"
proof -
  have v: "valid_bbox (0, 0, 2, 2)" "valid_bbox (0, 0, 2, 1)"
    by (simp_all add: valid_bbox_def)
  have d: "double_box (0, 0, 2, 2)" "double_box (0, 0, 2, 1)"
    by (simp_all add: double_box_def is_double_small)
  have s: "dadd (double_area (float_box (0, 0, 2, 2))) (double_area (float_box (0, 0, 2, 1))) = Fin 6"
    by (simp add: area_examples to_double_exact is_double_small)
  note t = iou_double_symmetric_bounded [OF v]
  have c: "iou_double (float_box (0, 0, 2, 2)) (float_box (0, 0, 2, 1)) =
      iou_double (float_box (0, 0, 2, 1)) (float_box (0, 0, 2, 2))"
    using t by (rule conjunct1)
  have e1: "iou_double (float_box (0, 0, 2, 2)) (float_box (0, 0, 2, 1)) = Inr (Fin (1 / 2))"
    by (rule iou_double_example)
  have e2: "iou_double (float_box (0, 0, 2, 1)) (float_box (0, 0, 2, 2)) = Inr (Fin (1 / 2))"
    by (rule trans [OF c [symmetric] e1])
  have r: "results_equal (iou_double (float_box (0, 0, 2, 2)) (float_box (0, 0, 2, 1)))
                 (iou_double (float_box (0, 0, 2, 1)) (float_box (0, 0, 2, 2))) \<and>
     result_in_unit (iou_double (float_box (0, 0, 2, 2)) (float_box (0, 0, 2, 1)))"
    using t s by blast
  show ?thesis
    by (intro conjI v d s e1 e2 conjunct1 [OF r] conjunct2 [OF r])
qed

text \<open>
  The claim as worded fails on float boxes. The box \<open>(0, 0, 2 ^ 520, 2 ^ 520)\<close> has double
  coordinates; its area overflows to an infinity, the union is \<open>inf + inf - inf\<close>, and the
  result is nan: not a number from 0 to 1, and not equal to the result of the call with the
  arguments exchanged, which is nan as well.
\<close>

theorem iou_double_not_a_number:
  "valid_bbox (0, 0, 2 ^ 520, 2 ^ 520) \<and> double_box (0, 0, 2 ^ 520, 2 ^ 520) \<and>
   iou_double (float_box (0, 0, 2 ^ 520, 2 ^ 520)) (float_box (0, 0, 2 ^ 520, 2 ^ 520)) = Inr NaN \<and>
   \<not> result_in_unit (iou_double (float_box (0, 0, 2 ^ 520, 2 ^ 520)) (float_box (0, 0, 2 ^ 520, 2 ^ 520))) \<and>
   \<not> results_equal (iou_double (float_box (0, 0, 2 ^ 520, 2 ^ 520)) (float_box (0, 0, 2 ^ 520, 2 ^ 520)))
                    (iou_double (float_box (0, 0, 2 ^ 520, 2 ^ 520)) (float_box (0, 0, 2 ^ 520, 2 ^ 520)))"
  using power2_box [of 520 520] same_box_power2 [of 520 520]
  by (simp add: result_in_unit_def results_equal_def in_unit_interval_def deq_def)

subsection \<open>The element match in double precision\<close>

lemma representable_half: "representable (1 / 2)"
  using is_double_half by (simp add: is_double_def)

lemma representable_three_quarters: "representable (3 / 4)"
proof -
  have h: "pow2 (- 2) = 1 / 4" by (simp add: pow2_def powr_minus inverse_eq_divide)
  have "representable (of_int 3 * pow2 (- 2))" by (rule representable_int_pow2) simp_all
  then show ?thesis unfolding h by simp
qed

lemma default_threshold_double:
  obtains t where "to_double (1 / 10) = Fin t" "0 \<le> t" "t \<le> 1 / 2"
proof -
  have lo: "0 \<le> round_nearest (1 / 10)" by (rule round_nearest_nonneg) simp
  have "round_nearest (1 / 10) \<le> round_nearest (1 / 2)" by (rule round_nearest_mono) simp
  then have hi: "round_nearest (1 / 10) \<le> 1 / 2"
    using representable_half by (simp add: representable_def)
  have "\<bar>round_nearest (1 / 10)\<bar> \<le> 1 / 2" using lo hi by simp
  also have "(1 / 2 :: real) < 2 ^ 1024"
    by (rule less_le_trans [of _ 1]) (simp, rule one_le_power, simp)
  finally have "to_double (1 / 10) = Fin (round_nearest (1 / 10))" by (rule to_double_finite)
  then show ?thesis using that lo hi by blast
qed

lemma strict_threshold_double:
  obtains t where "to_double (9 / 10) = Fin t" "3 / 4 \<le> t" "t \<le> 1"
proof -
  have "round_nearest (3 / 4) \<le> round_nearest (9 / 10)" by (rule round_nearest_mono) simp
  then have lo: "3 / 4 \<le> round_nearest (9 / 10)"
    using representable_three_quarters by (simp add: representable_def)
  have "round_nearest (9 / 10) \<le> round_nearest 1" by (rule round_nearest_mono) simp
  then have hi: "round_nearest (9 / 10) \<le> 1" by simp
  have "\<bar>round_nearest (9 / 10)\<bar> \<le> 1" using lo hi by simp
  also have "(1 :: real) < 2 ^ 1024" by (rule one_less_power) simp_all
  finally have "to_double (9 / 10) = Fin (round_nearest (9 / 10))" by (rule to_double_finite)
  then show ?thesis using that lo hi by blast
qed

text \<open>
  The pair of elements of the example for the SQA-UIC-BB metrics, compared in double precision:
  the boxes have
  an intersection over union of exactly 0.5, which reaches the double 0.1 and does not
  reach the double 0.9.
\<close>

lemma ui_elements_match_double_example:
  "ui_elements_match_double (float_box (0, 0, 2, 2), c) (float_box (0, 0, 2, 1), c)
     (to_double (1 / 10)) = Inr True \<and>
   ui_elements_match_double (float_box (0, 0, 2, 2), c) (float_box (0, 0, 2, 1), c)
     (to_double (9 / 10)) = Inr False"
proof -
  obtain t where t: "to_double (1 / 10) = Fin t" "0 \<le> t" "t \<le> 1 / 2"
    by (rule default_threshold_double)
  obtain u where u: "to_double (9 / 10) = Fin u" "3 / 4 \<le> u" "u \<le> 1"
    by (rule strict_threshold_double)
  have "dge (Fin (1 / 2)) (Fin t)" using t by (auto simp: dge_def deq_def)
  moreover have "\<not> dge (Fin (1 / 2)) (Fin u)" using u by (auto simp: dge_def deq_def)
  ultimately show ?thesis
    by (simp add: ui_elements_match_double_def iou_double_example t(1) u(1))
qed

end
